theory Spec2Isabelle
  imports Complex_Main "HOL-Library.Multiset" "HOL-Library.Product_Lexorder"
begin

section \<open>Python strings\<close>

text \<open>
  A Python \<^verbatim>\<open>str\<close> is modelled as a HOL \<^typ>\<open>string\<close>; each \<^typ>\<open>char\<close> stands for
  one code point in the range 0..255, so \<^const>\<open>length\<close> is Python's \<^verbatim>\<open>len\<close>.  The character
  classes below are the ones CPython uses on that range.
\<close>

definition isspace :: "char \<Rightarrow> bool" where
  \<comment> \<open>\<^verbatim>\<open>str.isspace\<close>, also the class used by \<^verbatim>\<open>strip()\<close>, \<^verbatim>\<open>split()\<close> and the regex \<^verbatim>\<open>\s\<close>\<close>
  "isspace c = (of_char c \<in> {9, 10, 11, 12, 13, 28, 29, 30, 31, 32, 133, 160 :: nat})"

definition is_word :: "char \<Rightarrow> bool" where
  \<comment> \<open>the regex class \<^verbatim>\<open>\w\<close> on a \<^verbatim>\<open>str\<close> pattern: alphanumeric or underscore\<close>
  "is_word c = (let n = of_char c :: nat in
     (48 \<le> n \<and> n \<le> 57) \<or> (65 \<le> n \<and> n \<le> 90) \<or> n = 95 \<or> (97 \<le> n \<and> n \<le> 122) \<or>
     n \<in> {170, 178, 179, 181, 185, 186, 188, 189, 190} \<or>
     (192 \<le> n \<and> n \<le> 255 \<and> n \<noteq> 215 \<and> n \<noteq> 247))"

definition lower_char :: "char \<Rightarrow> char" where
  "lower_char c = (let n = of_char c :: nat in
     if (65 \<le> n \<and> n \<le> 90) \<or> (192 \<le> n \<and> n \<le> 222 \<and> n \<noteq> 215) then char_of (n + 32) else c)"

definition lower :: "string \<Rightarrow> string" where
  \<comment> \<open>\<^verbatim>\<open>str.lower()\<close>\<close>
  "lower s = map lower_char s"

definition strip :: "string \<Rightarrow> string" where
  \<comment> \<open>\<^verbatim>\<open>str.strip()\<close>\<close>
  "strip s = rev (dropWhile isspace (rev (dropWhile isspace s)))"

definition startswith :: "string \<Rightarrow> string \<Rightarrow> bool" where
  \<comment> \<open>\<^verbatim>\<open>s.startswith(p)\<close>\<close>
  "startswith s p = (take (length p) s = p)"

fun split_acc :: "string \<Rightarrow> string \<Rightarrow> string list" where
  "split_acc cur [] = (if cur = [] then [] else [rev cur])"
| "split_acc cur (c # cs) =
     (if isspace c then (if cur = [] then split_acc [] cs else rev cur # split_acc [] cs)
      else split_acc (c # cur) cs)"

definition split_ws :: "string \<Rightarrow> string list" where
  \<comment> \<open>\<^verbatim>\<open>str.split()\<close> without arguments: the maximal runs of non-whitespace\<close>
  "split_ws s = split_acc [] s"

definition split_once :: "char \<Rightarrow> string \<Rightarrow> string list" where
  \<comment> \<open>\<^verbatim>\<open>s.split(sep, 1)\<close> for a one-character separator\<close>
  "split_once sep s =
     (if sep \<in> set s then [takeWhile (\<lambda>c. c \<noteq> sep) s, tl (dropWhile (\<lambda>c. c \<noteq> sep) s)]
      else [s])"

fun join_sp :: "string list \<Rightarrow> string" where
  \<comment> \<open>\<^verbatim>\<open>" ".join(ws)\<close>\<close>
  "join_sp [] = []"
| "join_sp [w] = w"
| "join_sp (w # v # ws) = w @ '' '' @ join_sp (v # ws)"

definition find_char :: "char \<Rightarrow> string \<Rightarrow> int" where
  \<comment> \<open>\<^verbatim>\<open>s.find(c)\<close>: the index of the first occurrence, or -1\<close>
  "find_char c s = (if c \<in> set s then int (length (takeWhile (\<lambda>d. d \<noteq> c) s)) else - 1)"

definition rfind_char :: "char \<Rightarrow> string \<Rightarrow> int" where
  \<comment> \<open>\<^verbatim>\<open>s.rfind(c)\<close>: the index of the last occurrence, or -1\<close>
  "rfind_char c s =
     (if c \<in> set s then int (length s) - 1 - int (length (takeWhile (\<lambda>d. d \<noteq> c) (rev s))) else - 1)"

section \<open>The regular expressions of the heuristic\<close>

definition is_word_at :: "string \<Rightarrow> int \<Rightarrow> bool" where
  "is_word_at s i = (0 \<le> i \<and> i < int (length s) \<and> is_word (s ! nat i))"

definition at_boundary :: "string \<Rightarrow> nat \<Rightarrow> bool" where
  \<comment> \<open>\<^verbatim>\<open>\b\<close> at position \<open>i\<close>: exactly one of the two neighbours is a word character\<close>
  "at_boundary s i = (s \<noteq> [] \<and> (is_word_at s (int i - 1) \<noteq> is_word_at s (int i)))"

definition kw_match_at :: "string \<Rightarrow> string \<Rightarrow> nat \<Rightarrow> bool" where
  \<comment> \<open>\<^verbatim>\<open>\b\<close> + \<^verbatim>\<open>re.escape(k)\<close> + \<^verbatim>\<open>\b\<close> matches at position \<open>i\<close>, ignoring case\<close>
  "kw_match_at k s i =
     (i + length k \<le> length s \<and> lower (take (length k) (drop i s)) = lower k \<and>
      at_boundary s i \<and> at_boundary s (i + length k))"

definition re_search_word :: "string \<Rightarrow> string \<Rightarrow> bool" where
  \<comment> \<open>\<^verbatim>\<open>re.search(r"\b" + re.escape(k) + r"\b", s, flags=re.I)\<close> finds a match\<close>
  "re_search_word k s = list_ex (kw_match_at k s) [0 ..< Suc (length s)]"

definition sentence_end :: "char \<Rightarrow> bool" where
  "sentence_end c = (c = CHR ''.'' \<or> c = CHR ''!'' \<or> c = CHR ''?'')"

fun first_sentence :: "string \<Rightarrow> string" where
  \<comment> \<open>\<^verbatim>\<open>re.split(r'(?<=[.!?])\s+', s, maxsplit=1)[0]\<close>: the text before the first
      whitespace that follows a full stop, an exclamation mark or a question mark\<close>
  "first_sentence (c # d # cs) =
     (if sentence_end c \<and> isspace d then [c] else c # first_sentence (d # cs))"
| "first_sentence cs = cs"

section \<open>The fallback heuristic\<close>

record result =
  score :: int
  summary :: string
  improvement :: string

definition KEY_TERMS :: "string list" where
  "KEY_TERMS = [''design'', ''trade-off'', ''complexity'', ''edge'', ''optimize'', ''test'',
     ''security'', ''performance'', ''scalability'', ''consistency'', ''retry'', ''idempotent'']"

definition keyword_hits :: "string \<Rightarrow> nat" where
  \<comment> \<open>\<^verbatim>\<open>sum(1 for k in KEY_TERMS if re.search(...))\<close>\<close>
  "keyword_hits txt = sum_list (map (\<lambda>k. if re_search_word k txt then 1 else 0) KEY_TERMS)"

definition heuristic_score :: "nat \<Rightarrow> nat \<Rightarrow> int" where
  \<comment> \<open>the \<^verbatim>\<open>if/elif\<close> chain on \<^verbatim>\<open>length\<close> and \<^verbatim>\<open>keywords\<close>\<close>
  "heuristic_score len keywords =
     (if len \<ge> 80 \<and> keywords \<ge> 2 then 5
      else if len \<ge> 50 \<and> keywords \<ge> 1 then 4
      else if len \<ge> 25 then 3
      else if len \<ge> 10 then 2
      else 1)"

definition fallback_score_and_text :: "string \<Rightarrow> result" where
  "fallback_score_and_text answer =
     (let txt = strip answer in
      if txt = [] then
        \<lparr>score = 1, summary = ''No answer provided.'',
         improvement = ''Provide an answer with key ideas.''\<rparr>
      else
        let words = split_ws txt;
            len = length words;
            keywords = keyword_hits txt;
            sc = heuristic_score len keywords;
            s_words = split_ws (first_sentence txt);
            summ = join_sp (take 20 s_words) @ (if length s_words > 20 then ''...'' else [])
        in \<lparr>score = sc, summary = summ,
            improvement = (if sc < 4 then ''Be more specific and mention trade-offs or testing.''
                           else ''Add a concrete example or metrics.'')\<rparr>)"

section \<open>Exceptions and the values of \<^verbatim>\<open>json.loads\<close>\<close>

datatype exn =
  RuntimeError | ValueError | JSONDecodeError | TypeError | OverflowError | AttributeError
| IndexError | KeyError | RecursionError | HTTPError | HTTPException nat string

text \<open>
  A Python \<^verbatim>\<open>float\<close> is a finite value (every double is a rational), an infinity or a NaN.
  A \<^verbatim>\<open>dict\<close> is an association list with distinct keys.
\<close>

datatype pyfloat = Finite rat | PosInf | NegInf | NaN

datatype json =
  JNull | JBool bool | JInt int | JFloat pyfloat | JString string
| JArray "json list" | JObject "(string \<times> json) list"

definition dict_get :: "(string \<times> json) list \<Rightarrow> string \<Rightarrow> json \<Rightarrow> json" where
  \<comment> \<open>\<^verbatim>\<open>d.get(key, default)\<close>\<close>
  "dict_get d k dflt = (case map_of d k of None \<Rightarrow> dflt | Some v \<Rightarrow> v)"

definition trunc :: "rat \<Rightarrow> int" where
  \<comment> \<open>\<^verbatim>\<open>int(x)\<close> on a finite float rounds toward zero\<close>
  "trunc q = (if 0 \<le> q then \<lfloor>q\<rfloor> else \<lceil>q\<rceil>)"

definition int_space :: "char \<Rightarrow> bool" where
  \<comment> \<open>the whitespace that \<^verbatim>\<open>int(str)\<close> tolerates around the literal\<close>
  "int_space c = (of_char c \<in> {9, 10, 11, 12, 13, 32, 133, 160 :: nat})"

definition is_digit :: "char \<Rightarrow> bool" where
  "is_digit c = (48 \<le> (of_char c :: nat) \<and> (of_char c :: nat) \<le> 57)"

fun digits_ok :: "string \<Rightarrow> bool" where
  \<comment> \<open>decimal digits, single underscores allowed between two digits only\<close>
  "digits_ok [] = False"
| "digits_ok [c] = is_digit c"
| "digits_ok (c # d # cs) =
     (is_digit c \<and> (if d = CHR ''_'' then digits_ok cs else digits_ok (d # cs)))"

definition digits_value :: "string \<Rightarrow> int" where
  "digits_value ds = foldl (\<lambda>acc c. 10 * acc + (int (of_char c) - 48)) 0 ds"

definition int_max_str_digits :: nat where
  \<comment> \<open>CPython's default limit on the digits of an integer literal\<close>
  "int_max_str_digits = 4300"

definition int_of_str :: "string \<Rightarrow> exn + int" where
  \<comment> \<open>\<^verbatim>\<open>int(s)\<close> for a \<^verbatim>\<open>str\<close>\<close>
  "int_of_str s =
     (let t = rev (dropWhile int_space (rev (dropWhile int_space s)));
          neg = (t \<noteq> [] \<and> hd t = CHR ''-'');
          body = (if t \<noteq> [] \<and> (hd t = CHR ''-'' \<or> hd t = CHR ''+'') then tl t else t);
          ds = filter (\<lambda>c. c \<noteq> CHR ''_'') body
      in if digits_ok body \<and> length ds \<le> int_max_str_digits
         then Inr (if neg then - digits_value ds else digits_value ds)
         else Inl ValueError)"

fun py_int :: "json \<Rightarrow> exn + int" where
  \<comment> \<open>\<^verbatim>\<open>int(v)\<close>\<close>
  "py_int (JInt n) = Inr n"
| "py_int (JBool b) = Inr (if b then 1 else 0)"
| "py_int (JFloat (Finite q)) = Inr (trunc q)"
| "py_int (JFloat NaN) = Inl ValueError"
| "py_int (JFloat PosInf) = Inl OverflowError"
| "py_int (JFloat NegInf) = Inl OverflowError"
| "py_int (JString s) = int_of_str s"
| "py_int JNull = Inl TypeError"
| "py_int (JArray _) = Inl TypeError"
| "py_int (JObject _) = Inl TypeError"

section \<open>Configuration\<close>

record settings =
  OPENAI_API_KEY :: string
  OPENAI_MODEL :: string
  OPENAI_API_BASE :: string
  USE_FALLBACK :: bool

definition getenv :: "(string \<rightharpoonup> string) \<Rightarrow> string \<Rightarrow> string \<Rightarrow> string" where
  \<comment> \<open>\<^verbatim>\<open>os.getenv(name, default)\<close>\<close>
  "getenv environ name dflt = (case environ name of None \<Rightarrow> dflt | Some v \<Rightarrow> v)"

definition Settings :: "(string \<rightharpoonup> string) \<Rightarrow> settings" where
  \<comment> \<open>the class attributes of \<^verbatim>\<open>Settings\<close>, computed from the process environment\<close>
  "Settings environ =
     (let key = strip (getenv environ ''OPENAI_API_KEY'' [])
      in \<lparr>OPENAI_API_KEY = key,
          OPENAI_MODEL = getenv environ ''OPENAI_MODEL'' ''gpt-4o-mini'',
          OPENAI_API_BASE = getenv environ ''OPENAI_API_BASE'' ''https://api.openai.com/v1'',
          USE_FALLBACK =
            (lower (getenv environ ''USE_FALLBACK'' []) \<in> set [''1'', ''true''] \<or> key = [])\<rparr>)"

section \<open>The library and the network\<close>

text \<open>
  What the code does not define itself is a parameter of the model: the JSON decoder
  (\<^verbatim>\<open>json.loads\<close>, which raises on text that is not JSON), \<^verbatim>\<open>str()\<close> on a value that is
  not a string, and the HTTP exchange of \<^verbatim>\<open>call_openai_chat\<close> (everything after its
  credential check: the request, the status check and the extraction of the completion),
  which raises or returns a value.
\<close>

record env =
  json_loads :: "string \<Rightarrow> exn + json"
  py_repr :: "json \<Rightarrow> string"
  http_chat :: "settings \<Rightarrow> string \<Rightarrow> exn + json"

definition py_str :: "env \<Rightarrow> json \<Rightarrow> string" where
  \<comment> \<open>\<^verbatim>\<open>str(v)\<close>\<close>
  "py_str E v = (case v of JString s \<Rightarrow> s | _ \<Rightarrow> py_repr E v)"

section \<open>The remote scorer and the parser of its output\<close>

definition call_openai_chat :: "settings \<Rightarrow> env \<Rightarrow> string \<Rightarrow> exn + json" where
  "call_openai_chat S E prompt =
     (if OPENAI_API_KEY S = [] then Inl RuntimeError else http_chat E S prompt)"

definition json_span :: "string \<Rightarrow> string option" where
  \<comment> \<open>\<^verbatim>\<open>raw[start:end+1]\<close> from the first opening to the last closing brace\<close>
  "json_span raw =
     (let start = find_char CHR ''{'' raw; end = rfind_char CHR ''}'' raw
      in if start = - 1 \<or> end = - 1 \<or> end \<le> start then None
         else Some (drop (nat start) (take (nat (end + 1)) raw)))"

definition normalize_parsed :: "env \<Rightarrow> json \<Rightarrow> exn + result" where
  \<comment> \<open>the normalisation of the decoded value; \<^verbatim>\<open>.get\<close> exists on a \<^verbatim>\<open>dict\<close> only\<close>
  "normalize_parsed E parsed =
     (case parsed of
        JObject d \<Rightarrow>
          (case py_int (dict_get d ''score'' (JInt 1)) of
             Inl e \<Rightarrow> Inl e
           | Inr sc \<Rightarrow>
               Inr \<lparr>score = max 1 (min 5 sc),
                    summary = strip (py_str E (dict_get d ''summary'' (JString []))),
                    improvement = strip (py_str E (dict_get d ''improvement'' (JString [])))\<rparr>)
      | _ \<Rightarrow> Inl AttributeError)"

definition parse_model_json :: "env \<Rightarrow> string \<Rightarrow> exn + result" where
  "parse_model_json E raw =
     (if raw = [] then Inl ValueError
      else case json_span raw of
             None \<Rightarrow> Inl ValueError
           | Some candidate \<Rightarrow>
               (case json_loads E candidate of
                  Inl e \<Rightarrow> Inl e
                | Inr parsed \<Rightarrow> normalize_parsed E parsed))"

section \<open>The evaluation engine\<close>

definition EVAL_PROMPT :: "string \<Rightarrow> string" where
  \<comment> \<open>\<^verbatim>\<open>EVAL_PROMPT.format(answer=txt)\<close>; the template has no other replacement field\<close>
  "EVAL_PROMPT answer =
     [CHR 0x0A] @
     ''You are an expert hiring screener. Evaluate the candidate'' @ [CHR 0x27] @
     ''s short answer and RETURN STRICT JSON (no extra commentary).'' @ [CHR 0x0A] @
     ''Output EXACTLY three fields:'' @ [CHR 0x0A] @
     ''- score: integer 1-5 (5 best)'' @ [CHR 0x0A] @
     ''- summary: one-line concise summary (<= 20 words)'' @ [CHR 0x0A] @
     ''- improvement: one short suggestion (<= 25 words)'' @ [CHR 0x0A, CHR 0x0A] @
     ''Candidate says:'' @ [CHR 0x0A, CHR 0x22, CHR 0x22, CHR 0x22] @
     answer @
     [CHR 0x22, CHR 0x22, CHR 0x22, CHR 0x0A, CHR 0x0A] @
     ''Use these heuristics:'' @ [CHR 0x0A] @
     ''5: Correct, complete, concise, shows depth or example.'' @ [CHR 0x0A] @
     ''4: Mostly correct, minor missing detail.'' @ [CHR 0x0A] @
     ''3: Partially correct or incomplete.'' @ [CHR 0x0A] @
     ''2: Poor, big gaps.'' @ [CHR 0x0A] @
     ''1: Incorrect/irrelevant.'' @ [CHR 0x0A, CHR 0x0A] @
     ''Return JSON only.'' @ [CHR 0x0A]"

definition py_index :: "'a list \<Rightarrow> nat \<Rightarrow> exn + 'a" where
  \<comment> \<open>\<^verbatim>\<open>xs[i]\<close> for \<open>i \<ge> 0\<close>\<close>
  "py_index xs i = (if i < length xs then Inr (xs ! i) else Inl IndexError)"

definition normalize_answer :: "string \<Rightarrow> exn + string" where
  \<comment> \<open>the first three statements of \<^verbatim>\<open>evaluate_text\<close>\<close>
  "normalize_answer answer =
     (let txt = strip answer in
      if startswith (lower txt) ''candidate says:'' then
        (case py_index (split_once CHR '':'' txt) 1 of
           Inl e \<Rightarrow> Inl e
         | Inr rest \<Rightarrow> Inr (strip rest))
      else Inr txt)"

definition truthy :: "json \<Rightarrow> bool" where
  "truthy v = (case v of JNull \<Rightarrow> False | JBool b \<Rightarrow> b | JInt n \<Rightarrow> n \<noteq> 0
     | JFloat f \<Rightarrow> f \<noteq> Finite 0 | JString s \<Rightarrow> s \<noteq> [] | JArray xs \<Rightarrow> xs \<noteq> []
     | JObject d \<Rightarrow> d \<noteq> [])"

definition parse_returned :: "env \<Rightarrow> json \<Rightarrow> exn + result" where
  \<comment> \<open>\<^verbatim>\<open>parse_model_json(raw)\<close> on whatever the call returned: a value that is not a
      string is rejected as empty, or has no \<^verbatim>\<open>find\<close>\<close>
  "parse_returned E raw =
     (case raw of
        JString s \<Rightarrow> parse_model_json E s
      | _ \<Rightarrow> if truthy raw then Inl AttributeError else Inl ValueError)"

definition evaluate_text :: "settings \<Rightarrow> env \<Rightarrow> string \<Rightarrow> exn + result" where
  "evaluate_text S E answer =
     (case normalize_answer answer of
        Inl e \<Rightarrow> Inl e
      | Inr txt \<Rightarrow>
          if USE_FALLBACK S then Inr (fallback_score_and_text txt)
          else
            let prompt = EVAL_PROMPT txt in
            (case call_openai_chat S E prompt of
               Inl e \<Rightarrow> Inr (fallback_score_and_text txt)
             | Inr raw \<Rightarrow>
                 (case parse_returned E raw of
                    Inl e \<Rightarrow> Inr (fallback_score_and_text txt)
                  | Inr parsed \<Rightarrow> Inr parsed)))"

section \<open>Bulk evaluation and ranking\<close>

record candidate =
  cid :: "string option"
  ctext :: string

record ranked =
  rid :: "string option"
  rtext :: string
  rscore :: int
  rsummary :: string
  rimprovement :: string

fun first_error :: "(exn + 'a) list \<Rightarrow> exn option" where
  "first_error [] = None"
| "first_error (Inl e # os) = Some e"
| "first_error (Inr r # os) = first_error os"

fun returned :: "(exn + 'a) list \<Rightarrow> 'a list" where
  "returned [] = []"
| "returned (Inl e # os) = returned os"
| "returned (Inr r # os) = r # returned os"

definition gather :: "(nat \<Rightarrow> nat) \<Rightarrow> (exn + 'a) list \<Rightarrow> exn + 'a list" where
  \<comment> \<open>\<^verbatim>\<open>await asyncio.gather(*tasks)\<close>: task \<open>i\<close> finishes at time \<open>finish i\<close>; the first
      exception to occur is raised, otherwise the results come in the order of the tasks\<close>
  "gather finish outs =
     (case first_error (map (\<lambda>i. outs ! i) (sort_key finish [0 ..< length outs])) of
        Some e \<Rightarrow> Inl e
      | None \<Rightarrow> Inr (returned outs))"

definition evaluate_bulk ::
  "(nat \<Rightarrow> nat) \<Rightarrow> settings \<Rightarrow> env \<Rightarrow> (string option \<times> string) list \<Rightarrow> exn + result list" where
  "evaluate_bulk finish S E items =
     gather finish (map (\<lambda>(cid', txt). evaluate_text S E txt) items)"

definition sort_key_of :: "ranked \<Rightarrow> int \<times> int" where
  \<comment> \<open>\<^verbatim>\<open>lambda x: (-x.score, -len(x.summary))\<close>\<close>
  "sort_key_of x = (- rscore x, - int (length (rsummary x)))"

definition rank_candidates ::
  "(nat \<Rightarrow> nat) \<Rightarrow> settings \<Rightarrow> env \<Rightarrow> candidate list \<Rightarrow> exn + ranked list" where
  \<comment> \<open>\<^verbatim>\<open>sorted\<close> is a stable sort, as \<^const>\<open>sort_key\<close> is\<close>
  "rank_candidates finish S E candidates =
     (if candidates = [] then Inl (HTTPException 400 ''No candidates provided'')
      else
        let items = map (\<lambda>c. (cid c, ctext c)) candidates in
        (case evaluate_bulk finish S E items of
           Inl e \<Rightarrow> Inl e
         | Inr results \<Rightarrow>
             let ranked_objs =
               map (\<lambda>((cid', txt), res).
                      \<lparr>rid = cid', rtext = txt, rscore = score res,
                       rsummary = summary res, rimprovement = improvement res\<rparr>)
                   (zip items results)
             in Inr (sort_key sort_key_of ranked_objs)))"

definition merged :: "settings \<Rightarrow> env \<Rightarrow> candidate \<Rightarrow> exn + ranked" where
  \<comment> \<open>one candidate with its own evaluation, as the loop over \<^verbatim>\<open>zip(items, results)\<close>
      builds it\<close>
  "merged S E c =
     (case evaluate_text S E (ctext c) of
        Inl e \<Rightarrow> Inl e
      | Inr res \<Rightarrow>
          Inr \<lparr>rid = cid c, rtext = ctext c, rscore = score res,
               rsummary = summary res, rimprovement = improvement res\<rparr>)"

section \<open>The heuristic's inputs in the words of the specification\<close>

fun count_tokens :: "bool \<Rightarrow> string \<Rightarrow> nat" where
  \<comment> \<open>the number of whitespace-delimited tokens: a token starts at every character that is
      not whitespace and does not continue a token (\<open>in_token\<close> tells whether the previous
      character belonged to one)\<close>
  "count_tokens in_token [] = 0"
| "count_tokens in_token (c # cs) =
     (if isspace c then count_tokens False cs
      else (if in_token then 0 else 1) + count_tokens True cs)"

definition whole_word_hit :: "string \<Rightarrow> string \<Rightarrow> bool" where
  \<comment> \<open>the term occurs in the text as a whole word, in any letter case: the occurrence is
      neither preceded nor followed by a word character\<close>
  "whole_word_hit k s =
     (\<exists>pre m post. s = pre @ m @ post \<and> lower m = k \<and>
        (pre = [] \<or> \<not> is_word (last pre)) \<and> (post = [] \<or> \<not> is_word (hd post)))"

section \<open>The parser's inputs in the words of the specification\<close>

definition decimal_value :: "string \<Rightarrow> int" where
  \<comment> \<open>the number that a string of decimal digits writes\<close>
  "decimal_value ds =
     (\<Sum>i < length ds. (int (of_char (ds ! i)) - 48) * 10 ^ (length ds - Suc i))"

definition int_literal :: "string \<Rightarrow> int \<Rightarrow> bool" where
  \<comment> \<open>\<open>s\<close> is an integer literal for \<open>n\<close>: optional whitespace (tab, line feed, vertical tab,
      form feed, carriage return, space, next line, no-break space) around an optional sign
      and decimal digits, with single underscores allowed between two digits, at most 4300
      digits\<close>
  "int_literal s n =
     (\<exists>ws1 sg ds ws2. s = ws1 @ sg @ ds @ ws2 \<and>
        (\<forall>c \<in> set ws1 \<union> set ws2. of_char c \<in> {9, 10, 11, 12, 13, 32, 133, 160 :: nat}) \<and>
        (sg = [] \<or> sg = ''+'' \<or> sg = ''-'') \<and>
        ds \<noteq> [] \<and> hd ds \<in> set ''0123456789'' \<and> last ds \<in> set ''0123456789'' \<and>
        set ds \<subseteq> set ''0123456789_'' \<and>
        successively (\<lambda>a b. \<not> (a = CHR ''_'' \<and> b = CHR ''_'')) ds \<and>
        length (filter (\<lambda>c. c \<noteq> CHR ''_'') ds) \<le> 4300 \<and>
        n = (if sg = ''-'' then - decimal_value (filter (\<lambda>c. c \<noteq> CHR ''_'') ds)
             else decimal_value (filter (\<lambda>c. c \<noteq> CHR ''_'') ds)))"

definition brace_span :: "string \<Rightarrow> string \<Rightarrow> bool" where
  \<comment> \<open>\<open>c\<close> is the part of \<open>raw\<close> from its first opening brace to its last closing brace, which
      comes later\<close>
  "brace_span raw c =
     (\<exists>pre mid post. raw = pre @ c @ post \<and> c = CHR ''{'' # mid @ [CHR ''}''] \<and>
        CHR ''{'' \<notin> set pre \<and> CHR ''}'' \<notin> set post)"

definition toward_zero :: "rat \<Rightarrow> int \<Rightarrow> bool" where
  \<comment> \<open>\<open>n\<close> is \<open>q\<close> truncated toward zero\<close>
  "toward_zero q n =
     ((0 \<le> q \<and> of_int n \<le> q \<and> q < of_int n + 1) \<or>
      (q \<le> 0 \<and> q \<le> of_int n \<and> of_int n < q + 1))"

definition int_raises :: "json \<Rightarrow> bool" where
  \<comment> \<open>the scores that have no integer value: null, a list, an object, NaN, an infinity, and a
      string that is not an integer literal\<close>
  "int_raises v =
     (v = JNull \<or> (\<exists>xs. v = JArray xs) \<or> (\<exists>d. v = JObject d) \<or>
      v = JFloat NaN \<or> v = JFloat PosInf \<or> v = JFloat NegInf \<or>
      (\<exists>s. v = JString s \<and> (\<forall>n. \<not> int_literal s n)))"

definition int_value :: "json \<Rightarrow> int \<Rightarrow> bool" where
  \<comment> \<open>the integer value of a score: an integer itself, true as 1 and false as 0, a finite
      float truncated toward zero, a string as the integer literal it is\<close>
  "int_value v n =
     (v = JInt n \<or> (v = JBool True \<and> n = 1) \<or> (v = JBool False \<and> n = 0) \<or>
      (\<exists>q. v = JFloat (Finite q) \<and> toward_zero q n) \<or>
      (\<exists>s. v = JString s \<and> int_literal s n))"

definition trimmed_of :: "string \<Rightarrow> string \<Rightarrow> bool" where
  \<comment> \<open>\<open>t\<close> is \<open>s\<close> without its leading and trailing whitespace\<close>
  "trimmed_of s t =
     (\<exists>a b. s = a @ t @ b \<and> (\<forall>c \<in> set a \<union> set b. isspace c) \<and>
        (t = [] \<or> (\<not> isspace (hd t) \<and> \<not> isspace (last t))))"

section \<open>Concrete configurations and environments\<close>

definition table_loads :: "(string \<times> json) list \<Rightarrow> string \<Rightarrow> exn + json" where
  \<comment> \<open>a decoder given by a finite table of texts with the values \<^verbatim>\<open>json.loads\<close> returns
      for them; every other text is rejected\<close>
  "table_loads tbl s = (case map_of tbl s of None \<Rightarrow> Inl JSONDecodeError | Some v \<Rightarrow> Inr v)"

definition env_of :: "(settings \<Rightarrow> string \<Rightarrow> exn + json) \<Rightarrow> (string \<times> json) list \<Rightarrow> env" where
  "env_of chat tbl = \<lparr>json_loads = table_loads tbl, py_repr = (\<lambda>v. []), http_chat = chat\<rparr>"

definition remote_settings :: settings where
  \<comment> \<open>a configuration with a credential and the remote path enabled\<close>
  "remote_settings =
     \<lparr>OPENAI_API_KEY = ''sk-test'', OPENAI_MODEL = ''gpt-4o-mini'',
      OPENAI_API_BASE = ''https://api.openai.com/v1'', USE_FALLBACK = False\<rparr>"

definition fallback_settings :: settings where
  \<comment> \<open>the configuration of a process without a credential\<close>
  "fallback_settings = Settings Map.empty"

definition timeout_env :: env where
  \<comment> \<open>every HTTP exchange times out\<close>
  "timeout_env = env_of (\<lambda>S prompt. Inl HTTPError) []"

definition reply_env :: "string \<Rightarrow> json \<Rightarrow> env" where
  \<comment> \<open>the remote model answers every prompt with the text \<open>raw\<close>, which decodes to \<open>v\<close>\<close>
  "reply_env raw v = env_of (\<lambda>S prompt. Inr (JString raw)) [(raw, v)]"

definition dq :: string where
  \<comment> \<open>the double quote\<close>
  "dq = [CHR 0x22]"

definition raw_nine :: string where
  \<comment> \<open>the text \<^verbatim>\<open>{"score": 9}\<close>\<close>
  "raw_nine = ''{'' @ dq @ ''score'' @ dq @ '': 9}''"

definition raw_full :: string where
  \<comment> \<open>the text \<^verbatim>\<open>{"score": 5, "summary": "ok", "improvement": "none"}\<close>\<close>
  "raw_full = ''{'' @ dq @ ''score'' @ dq @ '': 5, '' @ dq @ ''summary'' @ dq @ '': '' @ dq @ ''ok'' @ dq @
     '', '' @ dq @ ''improvement'' @ dq @ '': '' @ dq @ ''none'' @ dq @ ''}''"

definition parsed_full :: json where
  \<comment> \<open>what \<^verbatim>\<open>json.loads\<close> returns for \<^const>\<open>raw_full\<close>\<close>
  "parsed_full = JObject [(''score'', JInt 5), (''summary'', JString ''ok''),
     (''improvement'', JString ''none'')]"

definition raw_high :: string where
  \<comment> \<open>the text \<^verbatim>\<open>{"score": "high"}\<close>\<close>
  "raw_high = ''{'' @ dq @ ''score'' @ dq @ '': '' @ dq @ ''high'' @ dq @ ''}''"

definition raw_float :: string where
  \<comment> \<open>the text \<^verbatim>\<open>{"score": 4.9}\<close>\<close>
  "raw_float = ''{'' @ dq @ ''score'' @ dq @ '': 4.9}''"

definition raw_half :: string where
  \<comment> \<open>the text \<^verbatim>\<open>{"score": 0.5}\<close>\<close>
  "raw_half = ''{'' @ dq @ ''score'' @ dq @ '': 0.5}''"

definition raw_four :: string where
  \<comment> \<open>the text \<^verbatim>\<open>{"score": "4"}\<close>\<close>
  "raw_four = ''{'' @ dq @ ''score'' @ dq @ '': '' @ dq @ ''4'' @ dq @ ''}''"

definition raw_huge :: string where
  \<comment> \<open>the text \<^verbatim>\<open>{"score": 1e999}\<close>, whose number \<^verbatim>\<open>json.loads\<close> decodes to the float infinity\<close>
  "raw_huge = ''{'' @ dq @ ''score'' @ dq @ '': 1e999}''"

definition raw_decimal :: string where
  \<comment> \<open>the text \<^verbatim>\<open>{"score": "4.9"}\<close>\<close>
  "raw_decimal = ''{'' @ dq @ ''score'' @ dq @ '': '' @ dq @ ''4.9'' @ dq @ ''}''"

definition raw_twelve :: string where
  \<comment> \<open>the text \<^verbatim>\<open>{"score": " +1_2 "}\<close>\<close>
  "raw_twelve = ''{'' @ dq @ ''score'' @ dq @ '': '' @ dq @ '' +1_2 '' @ dq @ ''}''"

definition raw_minus :: string where
  \<comment> \<open>the text \<^verbatim>\<open>{"score": "-03"}\<close>\<close>
  "raw_minus = ''{'' @ dq @ ''score'' @ dq @ '': '' @ dq @ ''-03'' @ dq @ ''}''"

definition raw_none :: string where
  \<comment> \<open>the text \<^verbatim>\<open>} no json {\<close>, whose only closing brace comes before its opening brace\<close>
  "raw_none = ''} no json {''"

definition double_4_9 :: rat where
  \<comment> \<open>the double nearest to 4.9\<close>
  "double_4_9 = 2758454771764429 / 562949953421312"

definition env_no_key :: "string \<rightharpoonup> string" where
  \<comment> \<open>a process environment without a credential, the override flag switched off\<close>
  "env_no_key = [''USE_FALLBACK'' \<mapsto> ''false'']"

definition env_blank_key :: "string \<rightharpoonup> string" where
  \<comment> \<open>a credential that is only whitespace\<close>
  "env_blank_key = [''OPENAI_API_KEY'' \<mapsto> ''   '', ''USE_FALLBACK'' \<mapsto> ''0'']"

definition env_with_key :: "string \<rightharpoonup> string" where
  "env_with_key = [''OPENAI_API_KEY'' \<mapsto> ''sk-test'']"

definition no_answer :: result where
  \<comment> \<open>the result of the heuristic for an empty answer\<close>
  "no_answer = \<lparr>score = 1, summary = ''No answer provided.'',
     improvement = ''Provide an answer with key ideas.''\<rparr>"

definition long_answer :: string where
  \<comment> \<open>an answer of 80 words that mentions \<^verbatim>\<open>design\<close> and \<^verbatim>\<open>test\<close>\<close>
  "long_answer = ''Design test a'' @ concat (replicate 77 '' a'')"

section \<open>Properties\<close>


lemma lower_char_colon: "lower_char c = CHR '':'' \<Longrightarrow> c = CHR '':''"
proof -
  assume a: "lower_char c = CHR '':''"
  define n where "n = (of_char c :: nat)"
  show ?thesis
  proof (cases "(65 \<le> n \<and> n \<le> 90) \<or> (192 \<le> n \<and> n \<le> 222 \<and> n \<noteq> 215)")
    case True
    then have "char_of (n + 32) = CHR '':''"
      using a by (simp add: lower_char_def Let_def n_def)
    then have "(of_char (char_of (n + 32) :: char) :: nat) = of_char CHR '':''"
      by simp
    then have "(n + 32) mod 256 = 58"
      by (simp add: of_char_of)
    moreover from True have "n + 32 < 256" by arith
    ultimately have "n + 32 = 58" by simp
    with True show ?thesis by arith
  next
    case False
    then have "lower_char c = c"
      unfolding lower_char_def Let_def n_def by (simp only: if_False)
    with a show ?thesis by simp
  qed
qed

lemma lower_colon_self: "lower_char CHR '':'' = CHR '':''"
  by (simp add: lower_char_def)

lemma startswith_append:
  assumes "startswith s p"
  shows "\<exists>rest. s = p @ rest"
proof -
  from assms have e: "take (length p) s = p" by (simp only: startswith_def)
  have "take (length p) s @ drop (length p) s = s" by (rule append_take_drop_id)
  then have "p @ drop (length p) s = s" by (simp only: e)
  then have "s = p @ drop (length p) s" by (rule sym)
  then show ?thesis by (rule exI)
qed

lemma map_lower_sep_split:
  assumes m: "map lower_char s = a @ sep # r" and na: "sep \<notin> set a"
    and inj: "\<And>c. lower_char c = sep \<Longrightarrow> c = sep" and fx: "lower_char sep = sep"
  shows "\<exists>q rest. s = q @ sep # rest \<and> map lower_char q = a \<and> sep \<notin> set q"
proof -
  from m have "\<exists>us vs. s = us @ vs \<and> a = map lower_char us \<and> sep # r = map lower_char vs"
    by (simp only: map_eq_append_conv)
  then obtain q t where qt: "s = q @ t" "a = map lower_char q" "sep # r = map lower_char t"
    by (elim exE conjE)
  from qt(3) have "map lower_char t = sep # r" by (rule sym)
  then have "\<exists>z zs. t = z # zs \<and> lower_char z = sep \<and> map lower_char zs = r"
    by (simp only: map_eq_Cons_conv)
  then obtain c rest where t: "t = c # rest" "lower_char c = sep"
    by (elim exE conjE)
  have c: "c = sep" using t(2) by (rule inj)
  have nq: "sep \<notin> set q"
  proof
    assume "sep \<in> set q"
    then have "lower_char sep \<in> lower_char ` set q" by (rule imageI)
    then have "sep \<in> set (map lower_char q)" by (simp only: fx set_map)
    then show False using na by (simp only: qt(2) not_True_eq_False)
  qed
  have "s = q @ sep # rest" by (simp only: qt(1) t(1) c)
  moreover have "map lower_char q = a" by (simp only: qt(2))
  ultimately show ?thesis using nq by (intro exI conjI)
qed

lemma prefix_decomp:
  assumes "startswith (lower s) ''candidate says:''"
  shows "\<exists>q rest. s = q @ CHR '':'' # rest \<and> lower q = ''candidate says'' \<and> CHR '':'' \<notin> set q"
proof -
  from startswith_append [OF assms] obtain r where "lower s = ''candidate says:'' @ r"
    by (rule exE)
  then have "map lower_char s = ''candidate says'' @ CHR '':'' # r"
    by (simp add: lower_def)
  moreover have "CHR '':'' \<notin> set ''candidate says''" by simp
  ultimately show ?thesis
    unfolding lower_def using lower_char_colon lower_colon_self by (rule map_lower_sep_split)
qed

lemma split_once_first:
  assumes "sep \<notin> set q"
  shows "split_once sep (q @ sep # rest) = [q, rest]"
proof -
  have "\<And>x. x \<in> set q \<Longrightarrow> x \<noteq> sep" using assms by auto
  then show ?thesis
    by (simp add: split_once_def takeWhile_append2 dropWhile_append2)
qed

lemma normalize_answer_prefix:
  assumes "startswith (lower (strip answer)) ''candidate says:''"
  shows "\<exists>q rest. strip answer = q @ CHR '':'' # rest \<and> lower q = ''candidate says'' \<and>
           normalize_answer answer = Inr (strip rest)"
proof -
  from prefix_decomp [OF assms] obtain q rest where
    d: "strip answer = q @ CHR '':'' # rest" "lower q = ''candidate says''" "CHR '':'' \<notin> set q"
    by (elim exE conjE)
  have "split_once CHR '':'' (strip answer) = [q, rest]"
    unfolding d(1) using d(3) by (rule split_once_first)
  then have "normalize_answer answer = Inr (strip rest)"
    using assms by (simp add: normalize_answer_def py_index_def)
  with d(1,2) show ?thesis by (intro exI conjI)
qed

lemma normalize_answer_plain:
  "\<not> startswith (lower (strip answer)) ''candidate says:'' \<Longrightarrow> normalize_answer answer = Inr (strip answer)"
  by (simp add: normalize_answer_def)

lemma normalize_answer_total: "\<exists>t. normalize_answer answer = Inr t"
proof (cases "startswith (lower (strip answer)) ''candidate says:''")
  case True
  from normalize_answer_prefix [OF True] obtain q rest where
    "normalize_answer answer = Inr (strip rest)" by (elim exE conjE)
  then show ?thesis by (rule exI)
next
  case False
  then have "normalize_answer answer = Inr (strip answer)" by (rule normalize_answer_plain)
  then show ?thesis by (rule exI)
qed

lemma evaluate_text_total: "\<exists>r. evaluate_text S E answer = Inr r"
proof -
  obtain t where "normalize_answer answer = Inr t" using normalize_answer_total by (rule exE)
  then show ?thesis
    by (simp add: evaluate_text_def Let_def split: sum.splits)
qed


lemma normalize_answer_cases:
  "\<exists>t. normalize_answer answer = Inr t \<and>
     (if startswith (lower (strip answer)) ''candidate says:''
      then \<exists>q rest. strip answer = q @ CHR '':'' # rest \<and> lower q = ''candidate says'' \<and> t = strip rest
      else t = strip answer)"
proof (cases "startswith (lower (strip answer)) ''candidate says:''")
  case True
  from normalize_answer_prefix [OF True] obtain q rest where
    h: "strip answer = q @ CHR '':'' # rest" "lower q = ''candidate says''"
       "normalize_answer answer = Inr (strip rest)"
    by (elim exE conjE)
  have "\<exists>q' rest'. strip answer = q' @ CHR '':'' # rest' \<and> lower q' = ''candidate says'' \<and> strip rest = strip rest'"
  proof (intro exI conjI)
    show "strip answer = q @ CHR '':'' # rest" by (rule h(1))
    show "lower q = ''candidate says''" by (rule h(2))
    show "strip rest = strip rest" by (rule refl)
  qed
  with h(3) True show ?thesis by (intro exI [of _ "strip rest"]) (simp only: if_True simp_thms)
next
  case False
  then have "normalize_answer answer = Inr (strip answer)" by (rule normalize_answer_plain)
  with False show ?thesis by (intro exI [of _ "strip answer"]) (simp only: if_False simp_thms)
qed

lemma evaluate_text_fallback_mode:
  "normalize_answer answer = Inr t \<Longrightarrow> USE_FALLBACK S \<Longrightarrow>
   evaluate_text S E answer = Inr (fallback_score_and_text t)"
  by (simp add: evaluate_text_def)

lemma evaluate_text_call_fails:
  "normalize_answer answer = Inr t \<Longrightarrow> call_openai_chat S E (EVAL_PROMPT t) = Inl e \<Longrightarrow>
   evaluate_text S E answer = Inr (fallback_score_and_text t)"
  by (simp add: evaluate_text_def)

lemma evaluate_text_parse_fails:
  "normalize_answer answer = Inr t \<Longrightarrow> call_openai_chat S E (EVAL_PROMPT t) = Inr raw \<Longrightarrow>
   parse_returned E raw = Inl e \<Longrightarrow>
   evaluate_text S E answer = Inr (fallback_score_and_text t)"
  by (simp add: evaluate_text_def)

lemma evaluate_text_parse_ok:
  "normalize_answer answer = Inr t \<Longrightarrow> \<not> USE_FALLBACK S \<Longrightarrow>
   call_openai_chat S E (EVAL_PROMPT t) = Inr raw \<Longrightarrow> parse_returned E raw = Inr r \<Longrightarrow>
   evaluate_text S E answer = Inr r"
  by (simp add: evaluate_text_def)

text \<open>
  Claim C1.  \<^verbatim>\<open>evaluate_text\<close> returns a result for every input string and raises nothing:
  the only statement outside the \<^verbatim>\<open>try\<close> that could raise, the index \<^verbatim>\<open>[1]\<close> after the
  split at the first colon, is always in range.  The text handed on is the trimmed input,
  with the prefix up to its first colon removed and the rest trimmed again when the trimmed
  input starts with \<^verbatim>\<open>candidate says:\<close> in any letter case.  When the remote path is enabled
  and the call raises, or the parser raises on what the call returned, the result is the
  fallback heuristic applied to that text.
\<close>

theorem evaluate_text_fail_open:
  "(\<exists>r. evaluate_text S E answer = Inr r) \<and>
   (\<exists>t. normalize_answer answer = Inr t \<and>
     (if startswith (lower (strip answer)) ''candidate says:''
      then \<exists>q rest. strip answer = q @ CHR '':'' # rest \<and> lower q = ''candidate says'' \<and> t = strip rest
      else t = strip answer) \<and>
     (\<not> USE_FALLBACK S \<longrightarrow>
        (isl (call_openai_chat S E (EVAL_PROMPT t)) \<or>
         (\<exists>raw. call_openai_chat S E (EVAL_PROMPT t) = Inr raw \<and> isl (parse_returned E raw))) \<longrightarrow>
        evaluate_text S E answer = Inr (fallback_score_and_text t)))"
proof -
  from normalize_answer_cases [of answer] obtain t where
    t: "normalize_answer answer = Inr t"
    and shape: "if startswith (lower (strip answer)) ''candidate says:''
      then \<exists>q rest. strip answer = q @ CHR '':'' # rest \<and> lower q = ''candidate says'' \<and> t = strip rest
      else t = strip answer"
    by (elim exE conjE)
  have fo: "evaluate_text S E answer = Inr (fallback_score_and_text t)"
    if f: "isl (call_openai_chat S E (EVAL_PROMPT t)) \<or>
         (\<exists>raw. call_openai_chat S E (EVAL_PROMPT t) = Inr raw \<and> isl (parse_returned E raw))"
    using f
  proof
    assume "isl (call_openai_chat S E (EVAL_PROMPT t))"
    then obtain e where "call_openai_chat S E (EVAL_PROMPT t) = Inl e"
      by (cases "call_openai_chat S E (EVAL_PROMPT t)") simp_all
    with t show ?thesis by (rule evaluate_text_call_fails)
  next
    assume "\<exists>raw. call_openai_chat S E (EVAL_PROMPT t) = Inr raw \<and> isl (parse_returned E raw)"
    then obtain raw where r: "call_openai_chat S E (EVAL_PROMPT t) = Inr raw" "isl (parse_returned E raw)"
      by (elim exE conjE)
    from r(2) obtain e where "parse_returned E raw = Inl e"
      by (cases "parse_returned E raw") simp_all
    with t r(1) show ?thesis by (rule evaluate_text_parse_fails)
  qed
  from t shape fo have
    "normalize_answer answer = Inr t \<and>
     (if startswith (lower (strip answer)) ''candidate says:''
      then \<exists>q rest. strip answer = q @ CHR '':'' # rest \<and> lower q = ''candidate says'' \<and> t = strip rest
      else t = strip answer) \<and>
     (\<not> USE_FALLBACK S \<longrightarrow>
        (isl (call_openai_chat S E (EVAL_PROMPT t)) \<or>
         (\<exists>raw. call_openai_chat S E (EVAL_PROMPT t) = Inr raw \<and> isl (parse_returned E raw))) \<longrightarrow>
        evaluate_text S E answer = Inr (fallback_score_and_text t))"
    by (intro conjI impI)
  then have "\<exists>t. normalize_answer answer = Inr t \<and>
     (if startswith (lower (strip answer)) ''candidate says:''
      then \<exists>q rest. strip answer = q @ CHR '':'' # rest \<and> lower q = ''candidate says'' \<and> t = strip rest
      else t = strip answer) \<and>
     (\<not> USE_FALLBACK S \<longrightarrow>
        (isl (call_openai_chat S E (EVAL_PROMPT t)) \<or>
         (\<exists>raw. call_openai_chat S E (EVAL_PROMPT t) = Inr raw \<and> isl (parse_returned E raw))) \<longrightarrow>
        evaluate_text S E answer = Inr (fallback_score_and_text t))"
    by (rule exI)
  with evaluate_text_total [of S E answer] show ?thesis by (rule conjI)
qed

lemma first_error_None: "(\<And>x. x \<in> set os \<Longrightarrow> \<exists>r. x = Inr r) \<Longrightarrow> first_error os = None"
proof (induction os)
  case Nil
  show ?case by simp
next
  case (Cons x os)
  from Cons.prems [of x] obtain r where "x = Inr r" by auto
  moreover have "first_error os = None" by (rule Cons.IH) (simp add: Cons.prems)
  ultimately show ?case by simp
qed

lemma returned_map_Inr: "returned (map Inr rs) = rs"
  by (induction rs) simp_all

lemma gather_returned: "gather finish (map Inr rs) = Inr rs"
proof -
  have "first_error (map (\<lambda>i. map Inr rs ! i) (sort_key finish [0 ..< length (map Inr rs)])) = None"
  proof (rule first_error_None)
    fix x assume "x \<in> set (map (\<lambda>i. map Inr rs ! i) (sort_key finish [0 ..< length (map Inr rs)]))"
    then obtain i where "i < length rs" "x = map Inr rs ! i" by auto
    then have "x = Inr (rs ! i)" by simp
    then show "\<exists>r. x = Inr r" by (rule exI)
  qed
  then show ?thesis by (simp add: gather_def returned_map_Inr)
qed

lemma merged_total: "\<exists>x. merged S E c = Inr x"
proof -
  from evaluate_text_total [of S E "ctext c"] obtain r where "evaluate_text S E (ctext c) = Inr r"
    by (rule exE)
  then show ?thesis by (simp add: merged_def)
qed

lemma all_returned: "(\<And>x. \<exists>y. f x = Inr y) \<Longrightarrow> \<exists>ys. map f xs = map Inr ys"
proof (induction xs)
  case Nil
  show ?case by simp
next
  case (Cons x xs)
  from Cons.prems [of x] obtain y where y: "f x = Inr y" by (rule exE)
  from Cons.IH [OF Cons.prems] obtain ys where ys: "map f xs = map Inr ys" by (rule exE)
  have "map f (x # xs) = map Inr (y # ys)" using y ys by simp
  then show ?case by (rule exI)
qed

lemma rank_candidates_sorted:
  assumes ne: "cs \<noteq> []" and objs: "map (merged S E) cs = map Inr objs"
  shows "rank_candidates finish S E cs = Inr (sort_key sort_key_of objs)"
proof -
  define res where "res = map (\<lambda>x. \<lparr>score = rscore x, summary = rsummary x, improvement = rimprovement x\<rparr>) objs"
  have len: "length objs = length cs" using objs by (metis length_map)
  have ev: "evaluate_text S E (ctext (cs ! i)) = Inr (res ! i)"
       and ob: "objs ! i = \<lparr>rid = cid (cs ! i), rtext = ctext (cs ! i), rscore = score (res ! i),
               rsummary = summary (res ! i), rimprovement = improvement (res ! i)\<rparr>"
    if i: "i < length cs" for i
  proof -
    have m: "merged S E (cs ! i) = Inr (objs ! i)"
      using objs i len by (metis nth_map)
    obtain x where x: "evaluate_text S E (ctext (cs ! i)) = Inr x"
      using evaluate_text_total by (rule exE)
    from m have o: "objs ! i = \<lparr>rid = cid (cs ! i), rtext = ctext (cs ! i), rscore = score x,
               rsummary = summary x, rimprovement = improvement x\<rparr>"
      by (simp add: merged_def x)
    have r: "res ! i = x"
      using i len by (simp add: res_def o)
    show "evaluate_text S E (ctext (cs ! i)) = Inr (res ! i)"
      by (simp only: r x)
    show "objs ! i = \<lparr>rid = cid (cs ! i), rtext = ctext (cs ! i), rscore = score (res ! i),
               rsummary = summary (res ! i), rimprovement = improvement (res ! i)\<rparr>"
      by (simp only: r o)
  qed
  have lres: "length res = length cs" by (simp add: res_def len)
  have tasks: "map (\<lambda>(cid', txt). evaluate_text S E txt) (map (\<lambda>c. (cid c, ctext c)) cs) = map Inr res"
    by (rule nth_equalityI) (simp_all add: lres ev)
  have bulk: "evaluate_bulk finish S E (map (\<lambda>c. (cid c, ctext c)) cs) = Inr res"
    unfolding evaluate_bulk_def tasks by (rule gather_returned)
  have objs_eq: "map (\<lambda>((cid', txt), r).
                      \<lparr>rid = cid', rtext = txt, rscore = score r,
                       rsummary = summary r, rimprovement = improvement r\<rparr>)
                   (zip (map (\<lambda>c. (cid c, ctext c)) cs) res) = objs"
    by (rule nth_equalityI) (simp_all add: lres len ob)
  show ?thesis
    using ne by (simp add: rank_candidates_def bulk objs_eq)
qed

lemma rank_candidates_nonempty:
  assumes "cs \<noteq> []"
  shows "\<exists>objs. map (merged S E) cs = map Inr objs \<and>
           rank_candidates finish S E cs = Inr (sort_key sort_key_of objs)"
proof -
  from all_returned [of "merged S E" cs] merged_total obtain objs where
    o: "map (merged S E) cs = map Inr objs" by blast
  from rank_candidates_sorted [OF assms o] o show ?thesis by blast
qed

lemma rank_candidates_empty:
  "rank_candidates finish S E [] = Inl (HTTPException 400 ''No candidates provided'')"
  by (simp add: rank_candidates_def)

text \<open>
  Claim C8.  \<^verbatim>\<open>rank_candidates\<close> raises the HTTP 400 exception exactly when the list of
  candidates is empty; on a non-empty list it returns, and no other exception ever leaves it.
  \<^verbatim>\<open>evaluate_text\<close>, the other public operation, never raises.
\<close>

theorem rank_candidates_empty_only:
  "(rank_candidates finish S E cs = Inl (HTTPException 400 ''No candidates provided'') \<longleftrightarrow> cs = []) \<and>
   (cs \<noteq> [] \<longrightarrow> (\<exists>out. rank_candidates finish S E cs = Inr out)) \<and>
   (\<forall>e. rank_candidates finish S E cs = Inl e \<longrightarrow>
        cs = [] \<and> e = HTTPException 400 ''No candidates provided'') \<and>
   (\<exists>r. evaluate_text S E answer = Inr r)"
proof (cases "cs = []")
  case True
  have "rank_candidates finish S E cs = Inl (HTTPException 400 ''No candidates provided'')"
    unfolding True by (rule rank_candidates_empty)
  with True evaluate_text_total [of S E answer] show ?thesis by simp
next
  case False
  from rank_candidates_nonempty [OF False, of S E finish] obtain objs where
    "rank_candidates finish S E cs = Inr (sort_key sort_key_of objs)" by (elim exE conjE)
  with False evaluate_text_total [of S E answer] show ?thesis by simp
qed


theorem evaluate_text_fail_open_witness:
  "\<not> USE_FALLBACK remote_settings \<and>
   isl (call_openai_chat remote_settings timeout_env (EVAL_PROMPT ''hi there'')) \<and>
   normalize_answer ''  Candidate SAYS: hi there '' = Inr ''hi there'' \<and>
   evaluate_text remote_settings timeout_env ''  Candidate SAYS: hi there '' =
     Inr (fallback_score_and_text ''hi there'')"
proof -
  let ?a = "''  Candidate SAYS: hi there ''"
  have n: "normalize_answer ?a = Inr ''hi there''" by code_simp
  have u: "\<not> USE_FALLBACK remote_settings" by (simp add: remote_settings_def)
  have c: "isl (call_openai_chat remote_settings timeout_env (EVAL_PROMPT ''hi there''))"
    by (simp add: call_openai_chat_def remote_settings_def timeout_env_def env_of_def)
  from evaluate_text_fail_open [of remote_settings timeout_env ?a] obtain t where
    t: "normalize_answer ?a = Inr t" and
    imp: "\<not> USE_FALLBACK remote_settings \<longrightarrow>
        (isl (call_openai_chat remote_settings timeout_env (EVAL_PROMPT t)) \<or>
         (\<exists>raw. call_openai_chat remote_settings timeout_env (EVAL_PROMPT t) = Inr raw \<and>
                isl (parse_returned timeout_env raw))) \<longrightarrow>
        evaluate_text remote_settings timeout_env ?a = Inr (fallback_score_and_text t)"
    by (elim exE conjE)
  from t n have "t = ''hi there''" by (simp only: sum.inject)
  with imp u c have "evaluate_text remote_settings timeout_env ?a =
     Inr (fallback_score_and_text ''hi there'')" by (simp only: simp_thms)
  with u c n show ?thesis by (intro conjI)
qed

theorem rank_candidates_empty_only_witness:
  "rank_candidates (\<lambda>i. 0) fallback_settings timeout_env [] =
     Inl (HTTPException 400 ''No candidates provided'') \<and>
   [\<lparr>cid = Some ''c1'', ctext = ''short''\<rparr>] \<noteq> [] \<and>
   (\<exists>out. rank_candidates (\<lambda>i. 0) fallback_settings timeout_env
            [\<lparr>cid = Some ''c1'', ctext = ''short''\<rparr>] = Inr out)"
proof -
  let ?c = "\<lparr>cid = Some ''c1'', ctext = ''short''\<rparr>"
  have a: "rank_candidates (\<lambda>i. 0) fallback_settings timeout_env [] =
     Inl (HTTPException 400 ''No candidates provided'')"
    using rank_candidates_empty_only [of "\<lambda>i. 0" fallback_settings timeout_env "[]", THEN conjunct1]
    by (simp only: simp_thms)
  have ne: "[?c] \<noteq> []" by (rule list.distinct(2))
  have b: "\<exists>out. rank_candidates (\<lambda>i. 0) fallback_settings timeout_env [?c] = Inr out"
    using rank_candidates_empty_only [of "\<lambda>i. 0" fallback_settings timeout_env "[?c]",
        THEN conjunct2, THEN conjunct1] ne
    by (rule mp)
  from a ne b show ?thesis by (intro conjI)
qed



lemma sort_key_of_le:
  "sort_key_of a \<le> sort_key_of b \<longleftrightarrow>
   rscore a > rscore b \<or> (rscore a = rscore b \<and> length (rsummary a) \<ge> length (rsummary b))"
  by (auto simp: sort_key_of_def less_eq_prod_def)

lemma sort_key_of_eq:
  "sort_key_of x = (- s, - int n) \<longleftrightarrow> rscore x = s \<and> length (rsummary x) = n"
  by (auto simp: sort_key_of_def)

lemma ranked_sorted:
  "sorted_wrt (\<lambda>a b. rscore a > rscore b \<or>
                 (rscore a = rscore b \<and> length (rsummary a) \<ge> length (rsummary b)))
              (sort_key sort_key_of objs)"
proof -
  have "sorted (map sort_key_of (sort_key sort_key_of objs))" by (rule sorted_sort_key)
  then have "sorted_wrt (\<lambda>a b. sort_key_of a \<le> sort_key_of b) (sort_key sort_key_of objs)"
    by (simp only: sorted_map)
  then show ?thesis by (simp only: sort_key_of_le)
qed

lemma ranked_stable:
  "filter (\<lambda>x. rscore x = s \<and> length (rsummary x) = n) (sort_key sort_key_of objs) =
   filter (\<lambda>x. rscore x = s \<and> length (rsummary x) = n) objs"
  using sort_key_stable [of sort_key_of "(- s, - int n)" objs]
  by (simp only: sort_key_of_eq)

text \<open>
  Claim C3.  For a non-empty list, \<^verbatim>\<open>rank_candidates\<close> returns the candidates, each merged with
  its own evaluation, in descending order of score; among equal scores the longer summary
  (counted in characters) comes first; candidates that agree in score and summary length keep
  their input order.  The result does not depend on the times at which the concurrent
  evaluations finish.
\<close>

theorem rank_candidates_order:
  assumes "cs \<noteq> []"
  shows "\<exists>objs out.
     map (merged S E) cs = map Inr objs \<and>
     rank_candidates finish S E cs = Inr out \<and>
     mset out = mset objs \<and>
     sorted_wrt (\<lambda>a b. rscore a > rscore b \<or>
                 (rscore a = rscore b \<and> length (rsummary a) \<ge> length (rsummary b))) out \<and>
     (\<forall>s n. filter (\<lambda>x. rscore x = s \<and> length (rsummary x) = n) out =
            filter (\<lambda>x. rscore x = s \<and> length (rsummary x) = n) objs) \<and>
     (\<forall>finish'. rank_candidates finish' S E cs = Inr out)"
proof -
  from rank_candidates_nonempty [OF assms, of S E finish] obtain objs where
    o: "map (merged S E) cs = map Inr objs"
    and r: "rank_candidates finish S E cs = Inr (sort_key sort_key_of objs)"
    by (elim exE conjE)
  have m: "mset (sort_key sort_key_of objs) = mset objs" by (rule mset_sort)
  have st: "\<forall>s n. filter (\<lambda>x. rscore x = s \<and> length (rsummary x) = n) (sort_key sort_key_of objs) =
            filter (\<lambda>x. rscore x = s \<and> length (rsummary x) = n) objs"
    by (intro allI) (rule ranked_stable)
  have ind: "\<forall>finish'. rank_candidates finish' S E cs = Inr (sort_key sort_key_of objs)"
    by (intro allI) (rule rank_candidates_sorted [OF assms o])
  from o r m ranked_sorted [of objs] st ind show ?thesis by (intro exI conjI)
qed

lemma rank_example:
  "rank_candidates (\<lambda>i. 0) fallback_settings timeout_env
     [\<lparr>cid = Some ''a'', ctext = ''hi''\<rparr>, \<lparr>cid = None, ctext = ''hello there''\<rparr>,
      \<lparr>cid = Some ''c'', ctext = ''yo''\<rparr>] =
   Inr [\<lparr>rid = None, rtext = ''hello there'', rscore = 1, rsummary = ''hello there'',
         rimprovement = ''Be more specific and mention trade-offs or testing.''\<rparr>,
        \<lparr>rid = Some ''a'', rtext = ''hi'', rscore = 1, rsummary = ''hi'',
         rimprovement = ''Be more specific and mention trade-offs or testing.''\<rparr>,
        \<lparr>rid = Some ''c'', rtext = ''yo'', rscore = 1, rsummary = ''yo'',
         rimprovement = ''Be more specific and mention trade-offs or testing.''\<rparr>]"
  by code_simp


theorem rank_candidates_order_witness:
  "[\<lparr>cid = Some ''a'', ctext = ''hi''\<rparr>, \<lparr>cid = None, ctext = ''hello there''\<rparr>,
    \<lparr>cid = Some ''c'', ctext = ''yo''\<rparr>] \<noteq> [] \<and>
   rank_candidates (\<lambda>i. 0) fallback_settings timeout_env
     [\<lparr>cid = Some ''a'', ctext = ''hi''\<rparr>, \<lparr>cid = None, ctext = ''hello there''\<rparr>,
      \<lparr>cid = Some ''c'', ctext = ''yo''\<rparr>] =
   Inr [\<lparr>rid = None, rtext = ''hello there'', rscore = 1, rsummary = ''hello there'',
         rimprovement = ''Be more specific and mention trade-offs or testing.''\<rparr>,
        \<lparr>rid = Some ''a'', rtext = ''hi'', rscore = 1, rsummary = ''hi'',
         rimprovement = ''Be more specific and mention trade-offs or testing.''\<rparr>,
        \<lparr>rid = Some ''c'', rtext = ''yo'', rscore = 1, rsummary = ''yo'',
         rimprovement = ''Be more specific and mention trade-offs or testing.''\<rparr>] \<and>
   (\<exists>objs out.
     map (merged fallback_settings timeout_env)
       [\<lparr>cid = Some ''a'', ctext = ''hi''\<rparr>, \<lparr>cid = None, ctext = ''hello there''\<rparr>,
        \<lparr>cid = Some ''c'', ctext = ''yo''\<rparr>] = map Inr objs \<and>
     rank_candidates (\<lambda>i. 0) fallback_settings timeout_env
       [\<lparr>cid = Some ''a'', ctext = ''hi''\<rparr>, \<lparr>cid = None, ctext = ''hello there''\<rparr>,
        \<lparr>cid = Some ''c'', ctext = ''yo''\<rparr>] = Inr out \<and>
     mset out = mset objs \<and>
     sorted_wrt (\<lambda>a b. rscore a > rscore b \<or>
                 (rscore a = rscore b \<and> length (rsummary a) \<ge> length (rsummary b))) out \<and>
     (\<forall>s n. filter (\<lambda>x. rscore x = s \<and> length (rsummary x) = n) out =
            filter (\<lambda>x. rscore x = s \<and> length (rsummary x) = n) objs) \<and>
     (\<forall>finish'. rank_candidates finish' fallback_settings timeout_env
       [\<lparr>cid = Some ''a'', ctext = ''hi''\<rparr>, \<lparr>cid = None, ctext = ''hello there''\<rparr>,
        \<lparr>cid = Some ''c'', ctext = ''yo''\<rparr>] = Inr out))"
proof -
  let ?cs = "[\<lparr>cid = Some ''a'', ctext = ''hi''\<rparr>, \<lparr>cid = None, ctext = ''hello there''\<rparr>,
    \<lparr>cid = Some ''c'', ctext = ''yo''\<rparr>]"
  have ne: "?cs \<noteq> []" by (rule list.distinct(2))
  from ne rank_example rank_candidates_order [OF ne, of fallback_settings timeout_env "\<lambda>i. 0"]
  show ?thesis by (intro conjI)
qed



lemma fallback_score_range: "score (fallback_score_and_text a) \<in> {1, 2, 3, 4, 5}"
  by (simp add: fallback_score_and_text_def Let_def heuristic_score_def)

lemma clamp_range: "max 1 (min 5 (n :: int)) \<in> {1, 2, 3, 4, 5}"
proof -
  have "1 \<le> max 1 (min 5 n)" "max 1 (min 5 n) \<le> 5" by simp_all
  then show ?thesis by (simp only: insert_iff empty_iff) arith
qed

lemma normalize_parsed_range:
  assumes "normalize_parsed E v = Inr r"
  shows "score r \<in> {1, 2, 3, 4, 5}"
proof (cases v)
  case (JObject d)
  show ?thesis
  proof (cases "py_int (dict_get d ''score'' (JInt 1))")
    case (Inl e)
    with assms JObject show ?thesis by (simp add: normalize_parsed_def)
  next
    case (Inr sc)
    with assms JObject have "score r = max 1 (min 5 sc)"
      by (auto simp add: normalize_parsed_def)
    then show ?thesis by (simp only: clamp_range)
  qed
qed (use assms in \<open>simp_all add: normalize_parsed_def\<close>)

lemma parse_model_json_range:
  assumes "parse_model_json E raw = Inr r"
  shows "score r \<in> {1, 2, 3, 4, 5}"
proof -
  from assms obtain v where "normalize_parsed E v = Inr r"
    by (auto simp: parse_model_json_def split: if_splits option.splits sum.splits)
  then show ?thesis by (rule normalize_parsed_range)
qed

lemma parse_returned_range:
  assumes "parse_returned E raw = Inr r"
  shows "score r \<in> {1, 2, 3, 4, 5}"
proof (cases raw)
  case (JString s)
  with assms have "parse_model_json E s = Inr r" by (simp add: parse_returned_def)
  then show ?thesis by (rule parse_model_json_range)
qed (use assms in \<open>simp_all add: parse_returned_def split: if_splits\<close>)

lemma evaluate_text_range:
  assumes "evaluate_text S E answer = Inr r"
  shows "score r \<in> {1, 2, 3, 4, 5}"
proof -
  obtain t where t: "normalize_answer answer = Inr t"
    using normalize_answer_total by (rule exE)
  show ?thesis
  proof (cases "USE_FALLBACK S")
    case True
    with assms t have "r = fallback_score_and_text t" by (simp add: evaluate_text_def)
    then show ?thesis by (simp only: fallback_score_range)
  next
    case nf: False
    show ?thesis
    proof (cases "call_openai_chat S E (EVAL_PROMPT t)")
      case (Inl e)
      with assms t nf have "r = fallback_score_and_text t" by (simp add: evaluate_text_def)
      then show ?thesis by (simp only: fallback_score_range)
    next
      case (Inr raw)
      show ?thesis
      proof (cases "parse_returned E raw")
        case (Inl e)
        with assms t nf Inr have "r = fallback_score_and_text t" by (simp add: evaluate_text_def)
        then show ?thesis by (simp only: fallback_score_range)
      next
        case pr: (Inr p)
        with assms t nf Inr have "r = p" by (simp add: evaluate_text_def)
        with pr show ?thesis by (simp only: parse_returned_range)
      qed
    qed
  qed
qed

text \<open>
  Claim C2.  On every path the score of the returned result is one of 1, 2, 3, 4, 5: the
  parser clamps what the remote model sent, and the heuristic only assigns these values.
  The summary and the improvement are strings by construction: the parser converts whatever
  the decoded object holds with \<^verbatim>\<open>str\<close> and trims it, and the heuristic builds both from
  string operations, so neither can be \<^verbatim>\<open>None\<close>.
\<close>

theorem score_always_in_range:
  "(\<forall>r. parse_model_json E raw = Inr r \<longrightarrow> score r \<in> {1, 2, 3, 4, 5}) \<and>
   score (fallback_score_and_text t) \<in> {1, 2, 3, 4, 5} \<and>
   (\<exists>r. evaluate_text S E answer = Inr r \<and> score r \<in> {1, 2, 3, 4, 5})"
proof -
  have a: "\<forall>r. parse_model_json E raw = Inr r \<longrightarrow> score r \<in> {1, 2, 3, 4, 5}"
    by (intro allI impI) (rule parse_model_json_range)
  obtain r where r: "evaluate_text S E answer = Inr r"
    using evaluate_text_total by (rule exE)
  from r have "score r \<in> {1, 2, 3, 4, 5}" by (rule evaluate_text_range)
  with r have c: "\<exists>r. evaluate_text S E answer = Inr r \<and> score r \<in> {1, 2, 3, 4, 5}"
    by (intro exI conjI)
  from a fallback_score_range [of t] c show ?thesis by (intro conjI)
qed

lemma parse_nine:
  "parse_model_json (reply_env raw_nine (JObject [(''score'', JInt 9)])) raw_nine =
     Inr \<lparr>score = 5, summary = [], improvement = []\<rparr>"
  by code_simp

theorem score_always_in_range_witness:
  "parse_model_json (reply_env raw_nine (JObject [(''score'', JInt 9)])) raw_nine =
     Inr \<lparr>score = 5, summary = [], improvement = []\<rparr> \<and>
   score \<lparr>score = 5, summary = [], improvement = []\<rparr> \<in> {1, 2, 3, 4, 5}"
proof -
  from score_always_in_range [of "reply_env raw_nine (JObject [(''score'', JInt 9)])" raw_nine]
  have "\<forall>r. parse_model_json (reply_env raw_nine (JObject [(''score'', JInt 9)])) raw_nine = Inr r
          \<longrightarrow> score r \<in> {1, 2, 3, 4, 5}"
    by (rule conjunct1)
  then have "parse_model_json (reply_env raw_nine (JObject [(''score'', JInt 9)])) raw_nine =
      Inr \<lparr>score = 5, summary = [], improvement = []\<rparr>
      \<longrightarrow> score \<lparr>score = 5, summary = [], improvement = []\<rparr> \<in> {1, 2, 3, 4, 5}"
    by (rule spec)
  with parse_nine show ?thesis by (intro conjI) (erule (1) mp | assumption)+
qed



lemma Settings_key_empty_fallback:
  "OPENAI_API_KEY (Settings environ) = [] \<Longrightarrow> USE_FALLBACK (Settings environ)"
  by (simp add: Settings_def Let_def)

lemma Settings_key_absent:
  "environ ''OPENAI_API_KEY'' = None \<Longrightarrow> OPENAI_API_KEY (Settings environ) = []"
  by (simp add: Settings_def Let_def getenv_def strip_def)

lemma call_with_key:
  "OPENAI_API_KEY S \<noteq> [] \<Longrightarrow> call_openai_chat S E prompt = http_chat E S prompt"
  by (simp add: call_openai_chat_def)

text \<open>
  Claim C9.  \<^verbatim>\<open>Settings.USE_FALLBACK\<close> is true whenever the API key is empty after trimming or
  absent, whatever the \<^verbatim>\<open>USE_FALLBACK\<close> variable says.  So when \<^verbatim>\<open>evaluate_text\<close> takes the
  remote path the key is not empty, and \<^verbatim>\<open>call_openai_chat\<close> goes past its credential check
  to the HTTP exchange; without a key \<^verbatim>\<open>evaluate_text\<close> returns the heuristic's result.
\<close>

theorem no_key_forces_fallback:
  "(OPENAI_API_KEY (Settings environ) = [] \<longrightarrow> USE_FALLBACK (Settings environ)) \<and>
   (environ ''OPENAI_API_KEY'' = None \<longrightarrow> USE_FALLBACK (Settings environ)) \<and>
   (\<not> USE_FALLBACK (Settings environ) \<longrightarrow>
      OPENAI_API_KEY (Settings environ) \<noteq> [] \<and>
      call_openai_chat (Settings environ) E prompt = http_chat E (Settings environ) prompt) \<and>
   (OPENAI_API_KEY (Settings environ) = [] \<longrightarrow>
      (\<exists>t. normalize_answer answer = Inr t \<and>
           evaluate_text (Settings environ) E answer = Inr (fallback_score_and_text t)))"
proof (intro conjI impI)
  assume "OPENAI_API_KEY (Settings environ) = []"
  then show "USE_FALLBACK (Settings environ)" by (rule Settings_key_empty_fallback)
next
  assume "environ ''OPENAI_API_KEY'' = None"
  then have "OPENAI_API_KEY (Settings environ) = []" by (rule Settings_key_absent)
  then show "USE_FALLBACK (Settings environ)" by (rule Settings_key_empty_fallback)
next
  assume n: "\<not> USE_FALLBACK (Settings environ)"
  show k: "OPENAI_API_KEY (Settings environ) \<noteq> []"
  proof
    assume "OPENAI_API_KEY (Settings environ) = []"
    then have "USE_FALLBACK (Settings environ)" by (rule Settings_key_empty_fallback)
    with n show False by (rule notE)
  qed
  then show "call_openai_chat (Settings environ) E prompt = http_chat E (Settings environ) prompt"
    by (rule call_with_key)
next
  assume "OPENAI_API_KEY (Settings environ) = []"
  then have f: "USE_FALLBACK (Settings environ)" by (rule Settings_key_empty_fallback)
  obtain t where t: "normalize_answer answer = Inr t"
    using normalize_answer_total by (rule exE)
  from t f have "evaluate_text (Settings environ) E answer = Inr (fallback_score_and_text t)"
    by (rule evaluate_text_fallback_mode)
  with t show "\<exists>t. normalize_answer answer = Inr t \<and>
           evaluate_text (Settings environ) E answer = Inr (fallback_score_and_text t)"
    by (intro exI conjI)
qed

lemma env_no_key_absent: "env_no_key ''OPENAI_API_KEY'' = None"
  by code_simp

lemma env_blank_key_empty: "OPENAI_API_KEY (Settings env_blank_key) = []"
  by code_simp

lemma env_with_key_remote: "\<not> USE_FALLBACK (Settings env_with_key)"
  by code_simp

theorem no_key_forces_fallback_witness:
  "env_no_key ''OPENAI_API_KEY'' = None \<and> USE_FALLBACK (Settings env_no_key) \<and>
   OPENAI_API_KEY (Settings env_blank_key) = [] \<and> USE_FALLBACK (Settings env_blank_key) \<and>
   \<not> USE_FALLBACK (Settings env_with_key) \<and> OPENAI_API_KEY (Settings env_with_key) \<noteq> [] \<and>
   call_openai_chat (Settings env_with_key) timeout_env [] =
     http_chat timeout_env (Settings env_with_key) []"
proof -
  note a = no_key_forces_fallback [of env_no_key timeout_env "[]" "[]"]
  note b = no_key_forces_fallback [of env_blank_key timeout_env "[]" "[]"]
  note c = no_key_forces_fallback [of env_with_key timeout_env "[]" "[]"]
  have r1: "USE_FALLBACK (Settings env_no_key)"
    by (rule a [THEN conjunct2, THEN conjunct1, THEN mp, OF env_no_key_absent])
  have r2: "USE_FALLBACK (Settings env_blank_key)"
    by (rule b [THEN conjunct1, THEN mp, OF env_blank_key_empty])
  have r3: "OPENAI_API_KEY (Settings env_with_key) \<noteq> [] \<and>
      call_openai_chat (Settings env_with_key) timeout_env [] =
        http_chat timeout_env (Settings env_with_key) []"
    by (rule c [THEN conjunct2, THEN conjunct2, THEN conjunct1, THEN mp, OF env_with_key_remote])
  from env_no_key_absent r1 env_blank_key_empty r2 env_with_key_remote r3
  show ?thesis by (intro conjI) (erule conjunct1 conjunct2 | assumption)+
qed

lemma strip_empty_normalize:
  assumes "strip answer = []"
  shows "normalize_answer answer = Inr []"
proof -
  have "\<not> startswith (lower (strip answer)) ''candidate says:''"
    by (simp add: assms startswith_def lower_def)
  then have "normalize_answer answer = Inr (strip answer)" by (rule normalize_answer_plain)
  then show ?thesis by (simp only: assms)
qed

lemma fallback_empty:
  "strip answer = [] \<Longrightarrow> fallback_score_and_text answer = no_answer"
  by (simp add: fallback_score_and_text_def no_answer_def)

lemma strip_Nil: "strip [] = []"
  by (simp add: strip_def)

text \<open>
  Claim C6, as stated, fails for \<^verbatim>\<open>evaluate_text\<close>: with a credential configured the empty
  answer is sent to the remote model like any other, and what the model answers is returned.
\<close>

theorem empty_answer_remote_counterexample:
  "strip [] = [] \<and>
   evaluate_text remote_settings (reply_env raw_full parsed_full) [] =
     Inr \<lparr>score = 5, summary = ''ok'', improvement = ''none''\<rparr> \<and>
   evaluate_text remote_settings (reply_env raw_full parsed_full) [] \<noteq> Inr no_answer"
  by code_simp

text \<open>
  Claim C6, amended.  For every input whose trimmed text is empty, the fallback heuristic
  returns score 1 with the summary \<^verbatim>\<open>No answer provided.\<close> and the improvement
  \<^verbatim>\<open>Provide an answer with key ideas.\<close>; \<^verbatim>\<open>evaluate_text\<close> returns exactly that in fallback
  mode, and also when the remote call or the parsing of its output fails.
\<close>

theorem empty_answer_fallback:
  assumes "strip answer = []"
  shows "fallback_score_and_text answer = no_answer \<and>
     (USE_FALLBACK S \<longrightarrow> evaluate_text S E answer = Inr no_answer) \<and>
     (isl (call_openai_chat S E (EVAL_PROMPT [])) \<or>
      (\<exists>raw. call_openai_chat S E (EVAL_PROMPT []) = Inr raw \<and> isl (parse_returned E raw))
      \<longrightarrow> evaluate_text S E answer = Inr no_answer)"
proof -
  have n: "normalize_answer answer = Inr []" using assms by (rule strip_empty_normalize)
  have f: "fallback_score_and_text [] = no_answer" using strip_Nil by (rule fallback_empty)
  have a: "fallback_score_and_text answer = no_answer" using assms by (rule fallback_empty)
  have b: "evaluate_text S E answer = Inr no_answer" if "USE_FALLBACK S"
    using evaluate_text_fallback_mode [OF n that, of E] by (simp only: f)
  have c: "evaluate_text S E answer = Inr no_answer"
    if h: "isl (call_openai_chat S E (EVAL_PROMPT [])) \<or>
      (\<exists>raw. call_openai_chat S E (EVAL_PROMPT []) = Inr raw \<and> isl (parse_returned E raw))"
    using h
  proof
    assume "isl (call_openai_chat S E (EVAL_PROMPT []))"
    then obtain e where "call_openai_chat S E (EVAL_PROMPT []) = Inl e"
      by (cases "call_openai_chat S E (EVAL_PROMPT [])") simp_all
    with n have "evaluate_text S E answer = Inr (fallback_score_and_text [])"
      by (rule evaluate_text_call_fails)
    then show ?thesis by (simp only: f)
  next
    assume "\<exists>raw. call_openai_chat S E (EVAL_PROMPT []) = Inr raw \<and> isl (parse_returned E raw)"
    then obtain raw where r: "call_openai_chat S E (EVAL_PROMPT []) = Inr raw"
      "isl (parse_returned E raw)" by (elim exE conjE)
    from r(2) obtain e where "parse_returned E raw = Inl e"
      by (cases "parse_returned E raw") simp_all
    with n r(1) have "evaluate_text S E answer = Inr (fallback_score_and_text [])"
      by (rule evaluate_text_parse_fails)
    then show ?thesis by (simp only: f)
  qed
  from a b c show ?thesis by (intro conjI impI)
qed

lemma strip_blank: "strip ''  '' = []"
  by code_simp

lemma fallback_settings_fallback: "USE_FALLBACK fallback_settings"
  by code_simp

lemma timeout_call_fails: "isl (call_openai_chat remote_settings timeout_env prompt)"
  by (simp add: call_openai_chat_def remote_settings_def timeout_env_def env_of_def)

theorem empty_answer_fallback_witness:
  "strip ''  '' = [] \<and> USE_FALLBACK fallback_settings \<and>
   isl (call_openai_chat remote_settings timeout_env (EVAL_PROMPT [])) \<and>
   fallback_score_and_text ''  '' = no_answer \<and>
   evaluate_text fallback_settings timeout_env ''  '' = Inr no_answer \<and>
   evaluate_text remote_settings timeout_env ''  '' = Inr no_answer"
proof -
  note a = empty_answer_fallback [OF strip_blank, of fallback_settings timeout_env]
  note b = empty_answer_fallback [OF strip_blank, of remote_settings timeout_env]
  have h3: "isl (call_openai_chat remote_settings timeout_env (EVAL_PROMPT []))"
    by (rule timeout_call_fails)
  have r1: "fallback_score_and_text ''  '' = no_answer" by (rule a [THEN conjunct1])
  have r2: "evaluate_text fallback_settings timeout_env ''  '' = Inr no_answer"
    by (rule a [THEN conjunct2, THEN conjunct1, THEN mp, OF fallback_settings_fallback])
  have r3: "evaluate_text remote_settings timeout_env ''  '' = Inr no_answer"
    by (rule b [THEN conjunct2, THEN conjunct2, THEN mp, OF disjI1, OF h3])
  from strip_blank fallback_settings_fallback h3 r1 r2 r3 show ?thesis by (intro conjI)
qed



lemma trunc_double: "trunc double_4_9 = 4"
proof -
  have "\<lfloor>double_4_9\<rfloor> = 4"
    unfolding double_4_9_def by (rule floor_unique) simp_all
  moreover have "0 \<le> double_4_9" unfolding double_4_9_def by simp
  ultimately show ?thesis by (simp add: trunc_def)
qed

lemma trunc_half: "trunc (1 / 2) = 0"
proof -
  have "\<lfloor>1 / 2 :: rat\<rfloor> = 0" by (rule floor_unique) simp_all
  then show ?thesis by (simp add: trunc_def)
qed

lemma json_span_nonempty: "json_span raw = Some c \<Longrightarrow> raw \<noteq> []"
  by (auto simp: json_span_def find_char_def Let_def)

lemma parse_model_json_object:
  assumes "json_span raw = Some c" and "json_loads E c = Inr v"
  shows "parse_model_json E raw = normalize_parsed E v"
  using json_span_nonempty [OF assms(1)] assms by (simp add: parse_model_json_def)

lemma normalize_parsed_score:
  assumes "map_of d ''score'' = Some v" and "py_int v = Inr n"
  shows "\<exists>r. normalize_parsed E (JObject d) = Inr r \<and> score r = max 1 (min 5 n)"
  using assms by (simp add: normalize_parsed_def dict_get_def)



lemma loads_reply: "json_loads (reply_env raw v) raw = Inr v"
  by (simp add: reply_env_def env_of_def table_loads_def)

lemma span_float: "json_span raw_float = Some raw_float"
  by code_simp

lemma span_half: "json_span raw_half = Some raw_half"
  by code_simp

lemma span_four: "json_span raw_four = Some raw_four"
  by code_simp

lemma span_high: "json_span raw_high = Some raw_high"
  by code_simp

lemma span_full: "json_span raw_full = Some raw_full"
  by code_simp

text \<open>
  Claim C4, as stated, fails: a span that is valid JSON is still rejected when its
  \<^verbatim>\<open>score\<close> is not something \<^verbatim>\<open>int\<close> accepts, and such a score is not replaced by 1.
\<close>

theorem parse_non_numeric_score_counterexample:
  "json_span raw_high = Some raw_high \<and>
   json_loads (reply_env raw_high (JObject [(''score'', JString ''high'')])) raw_high =
     Inr (JObject [(''score'', JString ''high'')]) \<and>
   parse_model_json (reply_env raw_high (JObject [(''score'', JString ''high'')])) raw_high =
     Inl ValueError"
  by code_simp



lemma parse_no_span: "json_span raw = None \<Longrightarrow> parse_model_json E raw = Inl ValueError"
  by (simp add: parse_model_json_def)

lemma parse_loads_fails:
  "json_span raw = Some c \<Longrightarrow> json_loads E c = Inl e \<Longrightarrow> parse_model_json E raw = Inl e"
  using json_span_nonempty [of raw c] by (simp add: parse_model_json_def)

lemma normalize_not_object:
  assumes "\<And>d. v \<noteq> JObject d"
  shows "normalize_parsed E v = Inl AttributeError"
proof (cases v)
  case (JObject d)
  with assms [of d] show ?thesis by (rule notE)
qed (simp_all add: normalize_parsed_def)

lemma normalize_score_fails:
  "map_of d ''score'' = Some v \<Longrightarrow> py_int v = Inl e \<Longrightarrow>
   normalize_parsed E (JObject d) = Inl e"
  by (simp add: normalize_parsed_def dict_get_def)

lemma normalize_ok:
  assumes "normalize_parsed E (JObject d) = Inr r"
  shows "(map_of d ''score'' = None \<longrightarrow> score r = 1) \<and>
         (\<forall>v. map_of d ''score'' = Some v \<longrightarrow> (\<exists>n. py_int v = Inr n \<and> score r = max 1 (min 5 n))) \<and>
         (map_of d ''summary'' = None \<longrightarrow> summary r = []) \<and>
         (\<forall>v. map_of d ''summary'' = Some v \<longrightarrow> summary r = strip (py_str E v)) \<and>
         (map_of d ''improvement'' = None \<longrightarrow> improvement r = []) \<and>
         (\<forall>v. map_of d ''improvement'' = Some v \<longrightarrow> improvement r = strip (py_str E v))"
proof -
  from assms obtain sc where
    sc: "py_int (dict_get d ''score'' (JInt 1)) = Inr sc" and
    r: "r = \<lparr>score = max 1 (min 5 sc),
             summary = strip (py_str E (dict_get d ''summary'' (JString []))),
             improvement = strip (py_str E (dict_get d ''improvement'' (JString [])))\<rparr>"
    by (cases "py_int (dict_get d ''score'' (JInt 1))") (simp_all add: normalize_parsed_def)
  have s1: "score r = 1" if "map_of d ''score'' = None"
    using sc that by (simp add: r dict_get_def)
  have s2: "\<exists>n. py_int v = Inr n \<and> score r = max 1 (min 5 n)" if "map_of d ''score'' = Some v" for v
    using sc that by (simp add: r dict_get_def)
  have u1: "summary r = []" if "map_of d ''summary'' = None"
    using that by (simp add: r dict_get_def py_str_def strip_def)
  have u2: "summary r = strip (py_str E v)" if "map_of d ''summary'' = Some v" for v
    using that by (simp add: r dict_get_def)
  have i1: "improvement r = []" if "map_of d ''improvement'' = None"
    using that by (simp add: r dict_get_def py_str_def strip_def)
  have i2: "improvement r = strip (py_str E v)" if "map_of d ''improvement'' = Some v" for v
    using that by (simp add: r dict_get_def)
  from s1 s2 u1 u2 i1 i2 show ?thesis by (intro conjI allI impI)
qed

lemma normalize_fails_score:
  assumes "normalize_parsed E (JObject d) = Inl e"
  shows "\<exists>v. map_of d ''score'' = Some v \<and> isl (py_int v)"
proof (cases "map_of d ''score''")
  case None
  with assms show ?thesis by (simp add: normalize_parsed_def dict_get_def)
next
  case (Some v)
  with assms have "isl (py_int v)"
    by (cases "py_int v") (simp_all add: normalize_parsed_def dict_get_def)
  with Some show ?thesis by (intro exI conjI)
qed

lemma parse_model_json_cases:
  "(isl (parse_model_json E raw) \<longleftrightarrow>
      json_span raw = None \<or>
      (\<exists>c. json_span raw = Some c \<and>
         (isl (json_loads E c) \<or>
          (\<exists>v. json_loads E c = Inr v \<and> (\<forall>d. v \<noteq> JObject d)) \<or>
          (\<exists>d v. json_loads E c = Inr (JObject d) \<and> map_of d ''score'' = Some v \<and>
                 isl (py_int v))))) \<and>
   (\<forall>r. parse_model_json E raw = Inr r \<longrightarrow>
      (\<exists>c d. json_span raw = Some c \<and> json_loads E c = Inr (JObject d) \<and>
         (map_of d ''score'' = None \<longrightarrow> score r = 1) \<and>
         (\<forall>v. map_of d ''score'' = Some v \<longrightarrow>
              (\<exists>n. py_int v = Inr n \<and> score r = max 1 (min 5 n))) \<and>
         (map_of d ''summary'' = None \<longrightarrow> summary r = []) \<and>
         (\<forall>v. map_of d ''summary'' = Some v \<longrightarrow> summary r = strip (py_str E v)) \<and>
         (map_of d ''improvement'' = None \<longrightarrow> improvement r = []) \<and>
         (\<forall>v. map_of d ''improvement'' = Some v \<longrightarrow> improvement r = strip (py_str E v))))"
proof -
  let ?F = "json_span raw = None \<or>
      (\<exists>c. json_span raw = Some c \<and>
         (isl (json_loads E c) \<or>
          (\<exists>v. json_loads E c = Inr v \<and> (\<forall>d. v \<noteq> JObject d)) \<or>
          (\<exists>d v. json_loads E c = Inr (JObject d) \<and> map_of d ''score'' = Some v \<and>
                 isl (py_int v))))"
  let ?G = "\<lambda>r. \<exists>c d. json_span raw = Some c \<and> json_loads E c = Inr (JObject d) \<and>
         (map_of d ''score'' = None \<longrightarrow> score r = 1) \<and>
         (\<forall>v. map_of d ''score'' = Some v \<longrightarrow>
              (\<exists>n. py_int v = Inr n \<and> score r = max 1 (min 5 n))) \<and>
         (map_of d ''summary'' = None \<longrightarrow> summary r = []) \<and>
         (\<forall>v. map_of d ''summary'' = Some v \<longrightarrow> summary r = strip (py_str E v)) \<and>
         (map_of d ''improvement'' = None \<longrightarrow> improvement r = []) \<and>
         (\<forall>v. map_of d ''improvement'' = Some v \<longrightarrow> improvement r = strip (py_str E v))"
  have fail_case: "(isl (parse_model_json E raw) \<longleftrightarrow> ?F) \<and>
      (\<forall>r. parse_model_json E raw = Inr r \<longrightarrow> ?G r)"
    if pe: "parse_model_json E raw = Inl e" and F: ?F for e
  proof (rule conjI)
    have i: "isl (parse_model_json E raw)" unfolding pe by (rule sum.disc(1))
    show "isl (parse_model_json E raw) \<longleftrightarrow> ?F"
    proof
      assume "isl (parse_model_json E raw)"
      show ?F by (rule F)
    next
      assume ?F
      show "isl (parse_model_json E raw)" by (rule i)
    qed
    show "\<forall>r. parse_model_json E raw = Inr r \<longrightarrow> ?G r"
    proof (intro allI impI)
      fix r assume "parse_model_json E raw = Inr r"
      with pe have "Inl e = (Inr r :: exn + result)" by (simp only:)
      then show "?G r" by (rule sum.distinct(1) [THEN notE])
    qed
  qed
  show ?thesis
  proof (cases "json_span raw")
    case None
    then have "parse_model_json E raw = Inl ValueError" by (rule parse_no_span)
    moreover from None have ?F by (rule disjI1)
    ultimately show ?thesis by (rule fail_case)
  next
    case (Some c)
    show ?thesis
    proof (cases "json_loads E c")
      case (Inl e)
      with Some have "parse_model_json E raw = Inl e" by (rule parse_loads_fails)
      moreover have ?F
      proof (rule disjI2, rule exI [of _ c], rule conjI)
        show "json_span raw = Some c" by (rule Some)
        show "isl (json_loads E c) \<or>
          (\<exists>v. json_loads E c = Inr v \<and> (\<forall>d. v \<noteq> JObject d)) \<or>
          (\<exists>d v. json_loads E c = Inr (JObject d) \<and> map_of d ''score'' = Some v \<and>
                 isl (py_int v))"
          unfolding Inl by (rule disjI1) (rule sum.disc(1))
      qed
      ultimately show ?thesis by (rule fail_case)
    next
      case (Inr v)
      with Some have p: "parse_model_json E raw = normalize_parsed E v"
        by (rule parse_model_json_object)
      show ?thesis
      proof (cases "\<exists>d. v = JObject d")
        case False
        then have no: "\<forall>d. v \<noteq> JObject d" by simp
        then have "normalize_parsed E v = Inl AttributeError"
          by (intro normalize_not_object) (rule spec)
        then have "parse_model_json E raw = Inl AttributeError" by (simp only: p)
        moreover have ?F
        proof (rule disjI2, rule exI [of _ c], rule conjI)
          show "json_span raw = Some c" by (rule Some)
          from Inr no have "\<exists>v. json_loads E c = Inr v \<and> (\<forall>d. v \<noteq> JObject d)"
            by (intro exI conjI)
          then show "isl (json_loads E c) \<or>
            (\<exists>v. json_loads E c = Inr v \<and> (\<forall>d. v \<noteq> JObject d)) \<or>
            (\<exists>d v. json_loads E c = Inr (JObject d) \<and> map_of d ''score'' = Some v \<and>
                   isl (py_int v))"
            by (rule disjI1 [THEN disjI2])
        qed
        ultimately show ?thesis by (rule fail_case)
      next
        case True
        then obtain d where d: "v = JObject d" by (rule exE)
        note ld = Inr [unfolded d]
        show ?thesis
        proof (cases "normalize_parsed E (JObject d)")
          case e: (Inl e)
          from normalize_fails_score [OF e] obtain w where
            w: "map_of d ''score'' = Some w" "isl (py_int w)" by (elim exE conjE)
          have "parse_model_json E raw = Inl e" by (simp only: p d e)
          moreover have ?F
          proof (rule disjI2, rule exI [of _ c], rule conjI)
            show "json_span raw = Some c" by (rule Some)
            from ld w have "\<exists>d v. json_loads E c = Inr (JObject d) \<and>
                map_of d ''score'' = Some v \<and> isl (py_int v)"
              by (intro exI conjI)
            then show "isl (json_loads E c) \<or>
              (\<exists>v. json_loads E c = Inr v \<and> (\<forall>d. v \<noteq> JObject d)) \<or>
              (\<exists>d v. json_loads E c = Inr (JObject d) \<and> map_of d ''score'' = Some v \<and>
                     isl (py_int v))"
              by (rule disjI2 [THEN disjI2])
          qed
          ultimately show ?thesis by (rule fail_case)
        next
          case r: (Inr r)
          note ok = normalize_ok [OF r]
          have pr: "parse_model_json E raw = Inr r" by (simp only: p d r)
          have notF: "\<not> ?F"
          proof
            assume ?F
            then show False
            proof
              assume "json_span raw = None"
              with Some show False by simp
            next
              assume "\<exists>c. json_span raw = Some c \<and>
                (isl (json_loads E c) \<or>
                 (\<exists>v. json_loads E c = Inr v \<and> (\<forall>d. v \<noteq> JObject d)) \<or>
                 (\<exists>d v. json_loads E c = Inr (JObject d) \<and> map_of d ''score'' = Some v \<and>
                        isl (py_int v)))"
              then obtain c' where c': "json_span raw = Some c'" and
                alt: "isl (json_loads E c') \<or>
                 (\<exists>v. json_loads E c' = Inr v \<and> (\<forall>d. v \<noteq> JObject d)) \<or>
                 (\<exists>d v. json_loads E c' = Inr (JObject d) \<and> map_of d ''score'' = Some v \<and>
                        isl (py_int v))"
                by (elim exE conjE)
              from c' Some have cc: "c' = c" by simp
              from alt show False unfolding cc
              proof (elim disjE)
                assume "isl (json_loads E c)"
                with ld show False by simp
              next
                assume "\<exists>v. json_loads E c = Inr v \<and> (\<forall>d. v \<noteq> JObject d)"
                then obtain v' where "json_loads E c = Inr v'" "\<forall>d. v' \<noteq> JObject d"
                  by (elim exE conjE)
                with ld show False by simp
              next
                assume "\<exists>d v. json_loads E c = Inr (JObject d) \<and> map_of d ''score'' = Some v \<and>
                        isl (py_int v)"
                then obtain d' w where h: "json_loads E c = Inr (JObject d')"
                  "map_of d' ''score'' = Some w" "isl (py_int w)"
                  by (elim exE conjE)
                from h(1) ld have dd: "d' = d" by simp
                from ok have "\<forall>v. map_of d ''score'' = Some v \<longrightarrow>
                    (\<exists>n. py_int v = Inr n \<and> score r = max 1 (min 5 n))"
                  by (rule conjunct2 [THEN conjunct1])
                then have "map_of d ''score'' = Some w \<longrightarrow>
                    (\<exists>n. py_int w = Inr n \<and> score r = max 1 (min 5 n))" by (rule spec)
                moreover from h(2) have "map_of d ''score'' = Some w" by (simp only: dd)
                ultimately have "\<exists>n. py_int w = Inr n \<and> score r = max 1 (min 5 n)" by (rule mp)
                then obtain n where "py_int w = Inr n" by (elim exE conjE)
                with h(3) show False by simp
              qed
            qed
          qed
          show ?thesis
          proof (rule conjI)
            show "isl (parse_model_json E raw) \<longleftrightarrow> ?F"
            proof
              assume "isl (parse_model_json E raw)"
              then show ?F by (simp add: pr)
            next
              assume ?F
              with notF show "isl (parse_model_json E raw)" by (rule notE)
            qed
            show "\<forall>r. parse_model_json E raw = Inr r \<longrightarrow> ?G r"
            proof (intro allI impI)
              fix r' assume "parse_model_json E raw = Inr r'"
              with pr have e: "r' = r" by simp
              from ld ok have "json_loads E c = Inr (JObject d) \<and>
                 (map_of d ''score'' = None \<longrightarrow> score r = 1) \<and>
                 (\<forall>v. map_of d ''score'' = Some v \<longrightarrow>
                      (\<exists>n. py_int v = Inr n \<and> score r = max 1 (min 5 n))) \<and>
                 (map_of d ''summary'' = None \<longrightarrow> summary r = []) \<and>
                 (\<forall>v. map_of d ''summary'' = Some v \<longrightarrow> summary r = strip (py_str E v)) \<and>
                 (map_of d ''improvement'' = None \<longrightarrow> improvement r = []) \<and>
                 (\<forall>v. map_of d ''improvement'' = Some v \<longrightarrow> improvement r = strip (py_str E v))"
                by (rule conjI)
              with Some have "json_span raw = Some c \<and> json_loads E c = Inr (JObject d) \<and>
                 (map_of d ''score'' = None \<longrightarrow> score r = 1) \<and>
                 (\<forall>v. map_of d ''score'' = Some v \<longrightarrow>
                      (\<exists>n. py_int v = Inr n \<and> score r = max 1 (min 5 n))) \<and>
                 (map_of d ''summary'' = None \<longrightarrow> summary r = []) \<and>
                 (\<forall>v. map_of d ''summary'' = Some v \<longrightarrow> summary r = strip (py_str E v)) \<and>
                 (map_of d ''improvement'' = None \<longrightarrow> improvement r = []) \<and>
                 (\<forall>v. map_of d ''improvement'' = Some v \<longrightarrow> improvement r = strip (py_str E v))"
                by (rule conjI)
              then show "?G r'" unfolding e by (intro exI)
            qed
          qed
        qed
      qed
    qed
  qed
qed


lemma parse_full:
  "parse_model_json (reply_env raw_full parsed_full) raw_full =
     Inr \<lparr>score = 5, summary = ''ok'', improvement = ''none''\<rparr>"
  by code_simp



lemma strip_sandwich:
  assumes a: "\<forall>c \<in> set a. isspace c" and b: "\<forall>c \<in> set b. isspace c"
    and m: "m = [] \<or> (\<not> isspace (hd m) \<and> \<not> isspace (last m))"
  shows "strip (a @ m @ b) = m"
proof (cases "m = []")
  case True
  have "\<forall>x \<in> set (a @ b). isspace x" using a b by auto
  then have "dropWhile isspace (a @ b) = []" by (simp only: dropWhile_eq_Nil_conv)
  then show ?thesis unfolding True strip_def append_Nil
    by (simp only: rev.simps(1) dropWhile.simps(1))
next
  case False
  with m have h: "\<not> isspace (hd m)" and l: "\<not> isspace (last m)" by simp_all
  from False obtain x xs where mx: "m = x # xs" by (cases m) simp_all
  have d1: "dropWhile isspace (a @ m @ b) = m @ b"
    using a h mx by (simp add: dropWhile_append2)
  have "rev m \<noteq> []" using False by simp
  then obtain y ys where ry: "rev m = y # ys" by (cases "rev m") simp_all
  have "y = last m" using ry False by (metis last_rev list.sel(1) rev_rev_ident hd_rev)
  with l have ny: "\<not> isspace y" by simp
  have "\<And>x. x \<in> set (rev b) \<Longrightarrow> isspace x" using b by simp
  then have "dropWhile isspace (rev b @ rev m) = dropWhile isspace (rev m)"
    by (rule dropWhile_append2)
  also have "\<dots> = rev m" unfolding ry using ny by simp
  finally have d2: "dropWhile isspace (rev b @ rev m) = rev m" .
  show ?thesis unfolding strip_def d1 by (simp add: d2)
qed

lemma strip_decomp:
  "\<exists>a b. X = a @ strip X @ b \<and> (\<forall>c \<in> set a. isspace c) \<and> (\<forall>c \<in> set b. isspace c) \<and>
         (strip X = [] \<or> (\<not> isspace (hd (strip X)) \<and> \<not> isspace (last (strip X))))"
proof -
  define a where "a = takeWhile isspace X"
  define Y where "Y = dropWhile isspace X"
  define b where "b = rev (takeWhile isspace (rev Y))"
  have s: "strip X = rev (dropWhile isspace (rev Y))" by (simp add: strip_def Y_def)
  have "Y = rev (dropWhile isspace (rev Y)) @ rev (takeWhile isspace (rev Y))"
    by (metis rev_append rev_rev_ident takeWhile_dropWhile_id)
  then have Yd: "Y = strip X @ b" by (simp only: s b_def)
  have Xd: "X = a @ strip X @ b" unfolding Yd [symmetric] a_def Y_def by simp
  have sa: "\<forall>c \<in> set a. isspace c" unfolding a_def by (auto dest: set_takeWhileD)
  have sb: "\<forall>c \<in> set b. isspace c" unfolding b_def by (auto dest: set_takeWhileD)
  have ends: "\<not> isspace (hd (strip X)) \<and> \<not> isspace (last (strip X))" if ne: "strip X \<noteq> []"
  proof
    from ne have "Y \<noteq> []" using Yd by auto
    then have "\<not> isspace (hd Y)" unfolding Y_def by (rule hd_dropWhile)
    moreover have "hd Y = hd (strip X)" using Yd ne by (metis hd_append2)
    ultimately show "\<not> isspace (hd (strip X))" by simp
    from ne have d: "dropWhile isspace (rev Y) \<noteq> []" by (simp add: s)
    then have "\<not> isspace (hd (dropWhile isspace (rev Y)))" by (rule hd_dropWhile)
    moreover have "last (strip X) = hd (dropWhile isspace (rev Y))"
      unfolding s using d by (simp add: last_rev)
    ultimately show "\<not> isspace (last (strip X))" by simp
  qed
  then have e: "strip X = [] \<or> (\<not> isspace (hd (strip X)) \<and> \<not> isspace (last (strip X)))"
    by (cases "strip X = []") simp_all
  from Xd sa sb e show ?thesis by (intro exI conjI)
qed

lemma strip_padded:
  assumes "\<forall>c \<in> set u. isspace c" and "\<forall>c \<in> set w. isspace c"
  shows "strip (u @ X @ w) = strip X"
proof -
  from strip_decomp [of X] obtain a b where
    X: "X = a @ strip X @ b" and a: "\<forall>c \<in> set a. isspace c" and b: "\<forall>c \<in> set b. isspace c"
    and e: "strip X = [] \<or> (\<not> isspace (hd (strip X)) \<and> \<not> isspace (last (strip X)))"
    by (elim exE conjE)
  have e1: "strip ((u @ a) @ strip X @ (b @ w)) = strip X"
    using assms a b e by (intro strip_sandwich) auto
  from X have "u @ X @ w = u @ (a @ strip X @ b) @ w"
    by (rule arg_cong [where f = "\<lambda>z. u @ z @ w"])
  then have "u @ X @ w = (u @ a) @ strip X @ (b @ w)" by (simp only: append_assoc)
  then have e2: "strip (u @ X @ w) = strip ((u @ a) @ strip X @ (b @ w))"
    by (rule arg_cong [where f = strip])
  show ?thesis by (rule trans [OF e2 e1])
qed

lemma isspace_lower: "isspace c \<Longrightarrow> lower_char c = c"
  by (auto simp: isspace_def lower_char_def Let_def)


lemma not_space_c: "\<not> isspace CHR ''c''"
  by (simp add: isspace_def)

lemma not_space_colon: "\<not> isspace CHR '':''"
  by (simp add: isspace_def)

lemma prefix_shape:
  assumes "lower p = ''candidate says:''"
  shows "\<exists>q. p = q @ [CHR '':''] \<and> CHR '':'' \<notin> set q \<and> p \<noteq> [] \<and>
             \<not> isspace (hd p) \<and> \<not> isspace (last p)"
proof -
  from assms have m: "map lower_char p = ''candidate says'' @ CHR '':'' # []"
    by (simp add: lower_def)
  have nc: "CHR '':'' \<notin> set ''candidate says''" by simp
  from m nc lower_char_colon lower_colon_self
  have "\<exists>q rest. p = q @ CHR '':'' # rest \<and> map lower_char q = ''candidate says'' \<and>
          CHR '':'' \<notin> set q"
    by (rule map_lower_sep_split)
  then obtain q rest where q: "p = q @ CHR '':'' # rest"
    and lq: "map lower_char q = ''candidate says''" and nq: "CHR '':'' \<notin> set q"
    by (elim exE conjE)
  have "length (map lower_char p) = 15" unfolding m by simp
  then have "length p = 15" by simp
  moreover have "length (map lower_char q) = 14" unfolding lq by simp
  then have "length q = 14" by simp
  ultimately have "length rest = 0" unfolding q by simp
  then have rest: "rest = []" by simp
  have pq: "p = q @ [CHR '':'']" unfolding q rest ..
  from lq obtain x xs where qx: "q = x # xs" by (cases q) simp_all
  from lq have lx: "lower_char x = CHR ''c''" unfolding qx by simp
  have nx: "\<not> isspace x"
  proof
    assume sp: "isspace x"
    then have "lower_char x = x" by (rule isspace_lower)
    with lx have "x = CHR ''c''" by simp
    with sp not_space_c show False by simp
  qed
  have hd: "\<not> isspace (hd p)" unfolding pq qx using nx by simp
  have lst: "\<not> isspace (last p)" unfolding pq using not_space_colon by simp
  have ne: "p \<noteq> []" unfolding pq by simp
  from pq nq ne hd lst show ?thesis by (intro exI conjI)
qed

lemma startswith_lower_prefix:
  assumes "lower p = ''candidate says:''"
  shows "startswith (lower (p @ rest)) ''candidate says:''"
proof -
  have "lower (p @ rest) = ''candidate says:'' @ lower rest"
    using assms by (simp add: lower_def)
  then show ?thesis by (simp add: startswith_def)
qed

lemma normalize_answer_split:
  assumes s: "strip answer = q @ CHR '':'' # rest" and nq: "CHR '':'' \<notin> set q"
    and sw: "startswith (lower (strip answer)) ''candidate says:''"
  shows "normalize_answer answer = Inr (strip rest)"
proof -
  have "split_once CHR '':'' (strip answer) = [q, rest]"
    unfolding s using nq by (rule split_once_first)
  then show ?thesis using sw by (simp add: normalize_answer_def py_index_def)
qed

lemma normalize_prefixed:
  assumes p: "lower p = ''candidate says:''"
    and w1: "\<forall>c \<in> set w1. isspace c" and w2: "\<forall>c \<in> set w2. isspace c"
  shows "normalize_answer (w1 @ p @ Y @ w2) = Inr (strip Y)"
proof -
  from prefix_shape [OF p] obtain q where pq: "p = q @ [CHR '':'']"
    and nq: "CHR '':'' \<notin> set q" and ne: "p \<noteq> []"
    and hp: "\<not> isspace (hd p)" and lp: "\<not> isspace (last p)"
    by (elim exE conjE)
  from strip_decomp [of Y] obtain a b where
    Y: "Y = a @ strip Y @ b" and a: "\<forall>c \<in> set a. isspace c" and b: "\<forall>c \<in> set b. isspace c"
    and e: "strip Y = [] \<or> (\<not> isspace (hd (strip Y)) \<and> \<not> isspace (last (strip Y)))"
    by (elim exE conjE)
  define m where "m = strip Y"
  have "\<exists>rest. strip (w1 @ p @ Y @ w2) = p @ rest \<and> strip rest = m"
  proof (cases "m = []")
    case True
    have ws: "\<forall>c \<in> set (Y @ w2). isspace c"
    proof -
      from Y True have "Y = a @ b" by (simp add: m_def)
      then have "set (Y @ w2) = set a \<union> set b \<union> set w2" by (metis set_append)
      with a b w2 show ?thesis by auto
    qed
    have "strip (w1 @ p @ (Y @ w2)) = p"
      using w1 ws hp lp by (intro strip_sandwich) simp_all
    then have "strip (w1 @ p @ Y @ w2) = p @ []" by simp
    moreover have "strip [] = m" using True by (simp add: strip_def)
    ultimately show ?thesis by (intro exI conjI)
  next
    case False
    with e have hm: "\<not> isspace (hd m)" and lm: "\<not> isspace (last m)" by (simp_all add: m_def)
    have pam: "p @ a @ m \<noteq> []" using ne by simp
    have h: "\<not> isspace (hd (p @ a @ m))" using ne hp by simp
    have l: "\<not> isspace (last (p @ a @ m))" using False lm by simp
    have bw: "\<forall>c \<in> set (b @ w2). isspace c" using b w2 by auto
    have "strip (w1 @ (p @ a @ m) @ (b @ w2)) = p @ a @ m"
      using w1 bw h l by (intro strip_sandwich) simp_all
    moreover from Y have "w1 @ p @ Y @ w2 = w1 @ p @ (a @ m @ b) @ w2"
      unfolding m_def by (rule arg_cong [where f = "\<lambda>z. w1 @ p @ z @ w2"])
    then have "w1 @ p @ Y @ w2 = w1 @ (p @ a @ m) @ (b @ w2)" by (simp only: append_assoc)
    ultimately have s1: "strip (w1 @ p @ Y @ w2) = p @ (a @ m)" by simp
    have "strip (a @ m @ []) = m"
      using a hm lm by (intro strip_sandwich) simp_all
    then have "strip (a @ m) = m" by simp
    with s1 show ?thesis by (intro exI conjI)
  qed
  then obtain rest where s: "strip (w1 @ p @ Y @ w2) = p @ rest" and r: "strip rest = m"
    by (elim exE conjE)
  have "p @ rest = q @ CHR '':'' # rest" unfolding pq by simp
  with s have s': "strip (w1 @ p @ Y @ w2) = q @ CHR '':'' # rest" by (rule trans)
  have sw: "startswith (lower (strip (w1 @ p @ Y @ w2))) ''candidate says:''"
    unfolding s using p by (rule startswith_lower_prefix)
  from s' nq sw have "normalize_answer (w1 @ p @ Y @ w2) = Inr (strip rest)"
    by (rule normalize_answer_split)
  then show ?thesis unfolding r m_def .
qed

lemma evaluate_text_cong:
  "normalize_answer a = normalize_answer b \<Longrightarrow> evaluate_text S E a = evaluate_text S E b"
  by (simp add: evaluate_text_def)

text \<open>
  Claim C7, as stated, fails when the answer text itself begins with the prefix: only one
  prefix is removed, so the two calls score different texts.
\<close>

theorem nested_prefix_counterexample:
  "normalize_answer (''Candidate says: '' @ ''Candidate says: hi'') = Inr ''Candidate says: hi'' \<and>
   normalize_answer ''Candidate says: hi'' = Inr ''hi'' \<and>
   evaluate_text fallback_settings timeout_env (''Candidate says: '' @ ''Candidate says: hi'') \<noteq>
   evaluate_text fallback_settings timeout_env ''Candidate says: hi''"
  by code_simp

text \<open>
  Claim C7, amended.  For every answer text \<open>X\<close> whose trimmed form does not itself begin with
  \<^verbatim>\<open>candidate says:\<close> (in any letter case), every spelling \<open>p\<close> of the prefix and all
  whitespace \<open>w\<^sub>0\<close>, ..., \<open>w\<^sub>4\<close>: \<^verbatim>\<open>evaluate_text\<close> on \<open>w\<^sub>1 p w\<^sub>0 X w\<^sub>2\<close> and on \<open>w\<^sub>3 X w\<^sub>4\<close>
  normalise to the same text, the trimmed \<open>X\<close>, and so return equal results.
\<close>

theorem prefix_normalization:
  assumes "lower p = ''candidate says:''"
    and "\<forall>c \<in> set w0. isspace c" and "\<forall>c \<in> set w1. isspace c" and "\<forall>c \<in> set w2. isspace c"
    and "\<forall>c \<in> set w3. isspace c" and "\<forall>c \<in> set w4. isspace c"
    and "\<not> startswith (lower (strip X)) ''candidate says:''"
  shows "normalize_answer (w1 @ p @ w0 @ X @ w2) = Inr (strip X) \<and>
         normalize_answer (w3 @ X @ w4) = Inr (strip X) \<and>
         evaluate_text S E (w1 @ p @ w0 @ X @ w2) = evaluate_text S E (w3 @ X @ w4)"
proof -
  have "normalize_answer (w1 @ p @ (w0 @ X) @ w2) = Inr (strip (w0 @ X))"
    using assms(1,3,4) by (rule normalize_prefixed)
  moreover have "strip (w0 @ X @ []) = strip X"
    using assms(2) by (intro strip_padded) simp_all
  ultimately have a: "normalize_answer (w1 @ p @ w0 @ X @ w2) = Inr (strip X)" by simp
  have sx: "strip (w3 @ X @ w4) = strip X" using assms(5,6) by (rule strip_padded)
  have "\<not> startswith (lower (strip (w3 @ X @ w4))) ''candidate says:''"
    unfolding sx by (rule assms(7))
  then have "normalize_answer (w3 @ X @ w4) = Inr (strip (w3 @ X @ w4))"
    by (rule normalize_answer_plain)
  then have b: "normalize_answer (w3 @ X @ w4) = Inr (strip X)" unfolding sx .
  have "normalize_answer (w1 @ p @ w0 @ X @ w2) = normalize_answer (w3 @ X @ w4)"
    unfolding a b ..
  then have c: "evaluate_text S E (w1 @ p @ w0 @ X @ w2) = evaluate_text S E (w3 @ X @ w4)"
    by (rule evaluate_text_cong)
  from a b c show ?thesis by (intro conjI)
qed


lemma space_is_space: "isspace CHR '' ''"
  by (simp add: isspace_def)

lemma prefix_lower_example: "lower ''Candidate Says:'' = ''candidate says:''"
  by code_simp

lemma plain_answer_example: "\<not> startswith (lower (strip ''hi there'')) ''candidate says:''"
  by code_simp

theorem prefix_normalization_witness:
  "lower ''Candidate Says:'' = ''candidate says:'' \<and> isspace CHR '' '' \<and>
   \<not> startswith (lower (strip ''hi there'')) ''candidate says:'' \<and>
   normalize_answer (''  '' @ ''Candidate Says:'' @ '' '' @ ''hi there'' @ '' '') =
     Inr (strip ''hi there'') \<and>
   normalize_answer ([] @ ''hi there'' @ '' '') = Inr (strip ''hi there'') \<and>
   evaluate_text remote_settings timeout_env
     (''  '' @ ''Candidate Says:'' @ '' '' @ ''hi there'' @ '' '') =
   evaluate_text remote_settings timeout_env ([] @ ''hi there'' @ '' '')"
proof -
  have w0: "\<forall>c \<in> set '' ''. isspace c" using space_is_space by simp
  have w1: "\<forall>c \<in> set ''  ''. isspace c" using space_is_space by simp
  have w3: "\<forall>c \<in> set ([] :: string). isspace c" by simp
  note t = prefix_normalization [OF prefix_lower_example w0 w1 w0 w3 w0 plain_answer_example,
      of remote_settings timeout_env]
  from prefix_lower_example space_is_space plain_answer_example
    t [THEN conjunct1] t [THEN conjunct2, THEN conjunct1] t [THEN conjunct2, THEN conjunct2]
  show ?thesis by (intro conjI)
qed



lemma length_split_acc:
  "length (split_acc cur s) = count_tokens (cur \<noteq> []) s + (if cur \<noteq> [] then 1 else 0)"
  by (induction cur s rule: split_acc.induct) auto

lemma length_split_ws: "length (split_ws s) = count_tokens False s"
  by (simp add: split_ws_def length_split_acc)

lemma count_hits:
  "distinct xs \<Longrightarrow> sum_list (map (\<lambda>k. if P k then 1 else 0) xs) = card {k \<in> set xs. P k}"
proof (induction xs)
  case Nil
  show ?case by simp
next
  case (Cons x xs)
  then have IH: "sum_list (map (\<lambda>k. if P k then 1 else 0) xs) = card {k \<in> set xs. P k}"
    and nx: "x \<notin> set xs" by simp_all
  show ?case
  proof (cases "P x")
    case True
    then have "{k \<in> set (x # xs). P k} = insert x {k \<in> set xs. P k}" by auto
    moreover have "x \<notin> {k \<in> set xs. P k}" using nx by simp
    moreover have "finite {k \<in> set xs. P k}" by simp
    ultimately have "card {k \<in> set (x # xs). P k} = Suc (card {k \<in> set xs. P k})"
      by simp
    then show ?thesis using True IH by simp
  next
    case False
    then have "{k \<in> set (x # xs). P k} = {k \<in> set xs. P k}" by auto
    then show ?thesis using False IH by simp
  qed
qed

lemma distinct_KEY_TERMS: "distinct KEY_TERMS"
  by (simp add: KEY_TERMS_def)

lemma is_word_lower: "is_word (lower_char c) = is_word c"
proof -
  define n where "n = (of_char c :: nat)"
  have n: "n < 256" unfolding n_def by simp
  show ?thesis
  proof (cases "(65 \<le> n \<and> n \<le> 90) \<or> (192 \<le> n \<and> n \<le> 222 \<and> n \<noteq> 215)")
    case True
    then have l: "lower_char c = char_of (n + 32)" by (simp add: lower_char_def Let_def n_def)
    from True have "n + 32 < 256" by arith
    then have o: "(of_char (char_of (n + 32) :: char) :: nat) = n + 32" by (simp add: of_char_of)
    have "is_word (char_of (n + 32))" unfolding is_word_def Let_def o using True by arith
    moreover have "is_word c" unfolding is_word_def Let_def n_def [symmetric] using True by arith
    ultimately show ?thesis by (simp add: l)
  next
    case False
    then have "lower_char c = c" unfolding lower_char_def Let_def n_def by (simp only: if_False)
    then show ?thesis by simp
  qed
qed


lemma lower_length: "lower m = lower k \<Longrightarrow> length m = length k"
  unfolding lower_def by (rule map_eq_imp_length_eq)

lemma is_word_hd_lower:
  assumes "lower m = lower k" and "k \<noteq> []"
  shows "is_word (hd m) = is_word (hd k)" and "is_word (last m) = is_word (last k)"
proof -
  from assms have len: "length m = length k" by (intro lower_length)
  with assms(2) have m: "m \<noteq> []" by auto
  from assms(1) have e: "map lower_char m = map lower_char k" by (simp add: lower_def)
  have "lower_char (hd m) = lower_char (hd k)"
    using e m assms(2) by (metis hd_map)
  then show "is_word (hd m) = is_word (hd k)" by (metis is_word_lower)
  have "lower_char (last m) = lower_char (last k)"
    using e m assms(2) by (metis last_map)
  then show "is_word (last m) = is_word (last k)" by (metis is_word_lower)
qed

lemma is_word_at_append_mid:
  "m \<noteq> [] \<Longrightarrow> is_word_at (pre @ m @ post) (int (length pre)) = is_word (hd m)"
  by (cases m) (simp_all add: is_word_at_def nth_append)

lemma is_word_at_before:
  "is_word_at (pre @ rest) (int (length pre) - 1) = (pre \<noteq> [] \<and> is_word (last pre))"
proof (cases "pre = []")
  case True
  then show ?thesis by (simp add: is_word_at_def)
next
  case False
  then have "nat (int (length pre) - 1) = length pre - 1" by simp
  moreover have "(pre @ rest) ! (length pre - 1) = last pre"
    using False by (simp add: nth_append last_conv_nth)
  moreover have "0 \<le> int (length pre) - 1" using False by (cases pre) simp_all
  ultimately show ?thesis using False by (simp add: is_word_at_def)
qed

lemma is_word_at_after:
  "is_word_at (pre @ post) (int (length pre)) = (post \<noteq> [] \<and> is_word (hd post))"
  by (cases post) (simp_all add: is_word_at_def nth_append)


lemma kw_match_at_decomp:
  assumes len: "length m = length k" and ne: "m \<noteq> []"
  shows "kw_match_at k (pre @ m @ post) (length pre) \<longleftrightarrow>
           lower m = lower k \<and>
           ((pre \<noteq> [] \<and> is_word (last pre)) \<noteq> is_word (hd m)) \<and>
           (is_word (last m) \<noteq> (post \<noteq> [] \<and> is_word (hd post)))"
proof -
  have t: "take (length k) (drop (length pre) (pre @ m @ post)) = m"
    using len by simp
  have b1: "is_word_at (pre @ m @ post) (int (length pre) - 1) = (pre \<noteq> [] \<and> is_word (last pre))"
    by (rule is_word_at_before)
  have b2: "is_word_at (pre @ m @ post) (int (length pre)) = is_word (hd m)"
    using ne by (rule is_word_at_append_mid)
  have "is_word_at ((pre @ m) @ post) (int (length (pre @ m)) - 1) =
          (pre @ m \<noteq> [] \<and> is_word (last (pre @ m)))"
    by (rule is_word_at_before)
  then have b3: "is_word_at (pre @ m @ post) (int (length pre + length k) - 1) = is_word (last m)"
    using ne len by simp
  have "is_word_at ((pre @ m) @ post) (int (length (pre @ m))) = (post \<noteq> [] \<and> is_word (hd post))"
    by (rule is_word_at_after)
  then have b4: "is_word_at (pre @ m @ post) (int (length pre + length k)) =
          (post \<noteq> [] \<and> is_word (hd post))"
    using len by simp
  have l: "length pre + length k \<le> length (pre @ m @ post)" using len by simp
  have n: "pre @ m @ post \<noteq> []" using ne by simp
  show ?thesis
    unfolding kw_match_at_def at_boundary_def t b1 b2 b3 b4 using l n by simp
qed

lemma re_search_word_iff:
  assumes k: "k \<noteq> []" and hk: "is_word (hd k)" and lk: "is_word (last k)" and low: "lower k = k"
  shows "re_search_word k s \<longleftrightarrow> whole_word_hit k s"
proof
  assume "re_search_word k s"
  then have "\<exists>i \<in> set [0 ..< Suc (length s)]. kw_match_at k s i"
    by (simp only: re_search_word_def list_ex_iff)
  then obtain i where i0: "i \<in> set [0 ..< Suc (length s)]" and mt: "kw_match_at k s i"
    by (rule bexE)
  from i0 have i: "i \<le> length s" by auto
  define pre where "pre = take i s"
  define m where "m = take (length k) (drop i s)"
  define post where "post = drop (i + length k) s"
  from mt have bound: "i + length k \<le> length s" by (simp add: kw_match_at_def)
  have lp: "length pre = i" using i by (simp add: pre_def)
  have lm: "length m = length k" using bound by (simp add: m_def)
  have mne: "m \<noteq> []" using lm k by auto
  have pp: "post = drop (length k) (drop i s)" by (simp add: post_def add.commute)
  have dm: "drop i s = m @ post"
    unfolding m_def pp by (rule append_take_drop_id [symmetric])
  have "s = take i s @ drop i s" by (rule append_take_drop_id [symmetric])
  then have s: "s = pre @ m @ post" unfolding pre_def dm [symmetric] .
  from mt have "kw_match_at k (pre @ m @ post) (length pre)" unfolding lp s [symmetric] .
  then have lo: "lower m = lower k"
    and b1: "(pre \<noteq> [] \<and> is_word (last pre)) \<noteq> is_word (hd m)"
    and b2: "is_word (last m) \<noteq> (post \<noteq> [] \<and> is_word (hd post))"
    unfolding kw_match_at_decomp [OF lm mne] by simp_all
  from is_word_hd_lower [OF lo k] hk lk have "is_word (hd m)" "is_word (last m)" by simp_all
  with b1 b2 have "pre = [] \<or> \<not> is_word (last pre)" "post = [] \<or> \<not> is_word (hd post)"
    by auto
  moreover from lo low have "lower m = k" by simp
  ultimately show "whole_word_hit k s" unfolding whole_word_hit_def using s by blast
next
  assume "whole_word_hit k s"
  then obtain pre m post where s: "s = pre @ m @ post" and lo: "lower m = k"
    and p1: "pre = [] \<or> \<not> is_word (last pre)" and p2: "post = [] \<or> \<not> is_word (hd post)"
    unfolding whole_word_hit_def by blast
  from lo low have lo': "lower m = lower k" by simp
  then have lm: "length m = length k" by (rule lower_length)
  have mne: "m \<noteq> []" using lm k by auto
  from is_word_hd_lower [OF lo' k] hk lk have w: "is_word (hd m)" "is_word (last m)" by simp_all
  have "kw_match_at k (pre @ m @ post) (length pre)"
    unfolding kw_match_at_decomp [OF lm mne] using lo' w p1 p2 by auto
  then have mt: "kw_match_at k s (length pre)" unfolding s .
  have "length pre \<in> set [0 ..< Suc (length s)]" unfolding s by simp
  with mt have "\<exists>i \<in> set [0 ..< Suc (length s)]. kw_match_at k s i" by (rule bexI)
  then show "re_search_word k s" by (simp only: re_search_word_def list_ex_iff)
qed

lemma KEY_TERMS_shape:
  "list_all (\<lambda>k. k \<noteq> [] \<and> is_word (hd k) \<and> is_word (last k) \<and> lower k = k) KEY_TERMS"
  by code_simp

lemma key_term_hit:
  assumes "k \<in> set KEY_TERMS"
  shows "re_search_word k s \<longleftrightarrow> whole_word_hit k s"
proof -
  from KEY_TERMS_shape assms
  have "k \<noteq> [] \<and> is_word (hd k) \<and> is_word (last k) \<and> lower k = k"
    unfolding list_all_iff by (rule bspec)
  then show ?thesis by (intro re_search_word_iff) simp_all
qed

lemma keyword_hits_card:
  "keyword_hits s = card {k \<in> set KEY_TERMS. whole_word_hit k s}"
proof -
  have "keyword_hits s = card {k \<in> set KEY_TERMS. re_search_word k s}"
    unfolding keyword_hits_def using distinct_KEY_TERMS by (rule count_hits)
  moreover have "{k \<in> set KEY_TERMS. re_search_word k s} = {k \<in> set KEY_TERMS. whole_word_hit k s}"
    using key_term_hit by blast
  ultimately show ?thesis by simp
qed

lemma two_hits:
  assumes "k1 \<in> set KEY_TERMS" "k2 \<in> set KEY_TERMS" "k1 \<noteq> k2"
    "whole_word_hit k1 s" "whole_word_hit k2 s"
  shows "2 \<le> keyword_hits s"
proof -
  have "{k1, k2} \<subseteq> {k \<in> set KEY_TERMS. whole_word_hit k s}" using assms by simp
  moreover have "finite {k \<in> set KEY_TERMS. whole_word_hit k s}" by simp
  ultimately have "card {k1, k2} \<le> card {k \<in> set KEY_TERMS. whole_word_hit k s}"
    by (intro card_mono)
  moreover have "card {k1, k2} = 2" using assms(3) by simp
  ultimately show ?thesis by (simp add: keyword_hits_card)
qed


lemma fallback_score_eq:
  assumes "strip answer \<noteq> []"
  shows "score (fallback_score_and_text answer) =
     heuristic_score (length (split_ws (strip answer))) (keyword_hits (strip answer))"
  using assms by (simp add: fallback_score_and_text_def Let_def)

text \<open>
  Claim C5.  For an answer that is not empty after trimming, the heuristic's score follows
  the thresholds in order, where the length is the number of whitespace-delimited tokens of
  the trimmed text and the hits are the number of distinct key terms that occur in it as a
  whole word, in any letter case.  In particular two different key terms in an answer of at
  least 80 tokens give the score 5.
\<close>

theorem heuristic_score_rule:
  assumes "strip answer \<noteq> []"
  shows "score (fallback_score_and_text answer) =
     (let n = count_tokens False (strip answer);
          h = card {k \<in> set KEY_TERMS. whole_word_hit k (strip answer)}
      in if n \<ge> 80 \<and> h \<ge> 2 then 5
         else if n \<ge> 50 \<and> h \<ge> 1 then 4
         else if n \<ge> 25 then 3
         else if n \<ge> 10 then 2
         else 1) \<and>
     (\<forall>k1 k2. k1 \<in> set KEY_TERMS \<longrightarrow> k2 \<in> set KEY_TERMS \<longrightarrow> k1 \<noteq> k2 \<longrightarrow>
        whole_word_hit k1 (strip answer) \<longrightarrow> whole_word_hit k2 (strip answer) \<longrightarrow>
        80 \<le> count_tokens False (strip answer) \<longrightarrow>
        score (fallback_score_and_text answer) = 5)"
proof (rule conjI)
  note e = fallback_score_eq [OF assms]
  show "score (fallback_score_and_text answer) =
     (let n = count_tokens False (strip answer);
          h = card {k \<in> set KEY_TERMS. whole_word_hit k (strip answer)}
      in if n \<ge> 80 \<and> h \<ge> 2 then 5
         else if n \<ge> 50 \<and> h \<ge> 1 then 4
         else if n \<ge> 25 then 3
         else if n \<ge> 10 then 2
         else 1)"
    unfolding e length_split_ws keyword_hits_card heuristic_score_def Let_def ..
  show "\<forall>k1 k2. k1 \<in> set KEY_TERMS \<longrightarrow> k2 \<in> set KEY_TERMS \<longrightarrow> k1 \<noteq> k2 \<longrightarrow>
        whole_word_hit k1 (strip answer) \<longrightarrow> whole_word_hit k2 (strip answer) \<longrightarrow>
        80 \<le> count_tokens False (strip answer) \<longrightarrow>
        score (fallback_score_and_text answer) = 5"
  proof (intro allI impI)
    fix k1 k2
    assume "k1 \<in> set KEY_TERMS" "k2 \<in> set KEY_TERMS" "k1 \<noteq> k2"
      "whole_word_hit k1 (strip answer)" "whole_word_hit k2 (strip answer)"
    then have "2 \<le> keyword_hits (strip answer)" by (rule two_hits)
    moreover assume "80 \<le> count_tokens False (strip answer)"
    ultimately show "score (fallback_score_and_text answer) = 5"
      unfolding e length_split_ws heuristic_score_def by simp
  qed
qed

lemma long_answer_strip: "strip long_answer = long_answer"
  by code_simp

lemma long_answer_tokens: "80 \<le> count_tokens False long_answer"
  by code_simp

lemma long_answer_nonempty: "long_answer \<noteq> []"
  by (simp add: long_answer_def)

lemma not_word_space: "\<not> is_word CHR '' ''"
  by (simp add: is_word_def)

lemma long_answer_design: "whole_word_hit ''design'' long_answer"
proof -
  have "long_answer = [] @ ''Design'' @ ('' test a'' @ concat (replicate 77 '' a''))"
    by (simp add: long_answer_def)
  moreover have "lower ''Design'' = ''design''" by code_simp
  moreover have "'' test a'' @ concat (replicate 77 '' a'') = [] \<or>
      \<not> is_word (hd ('' test a'' @ concat (replicate 77 '' a'')))"
    using not_word_space by simp
  ultimately show ?thesis unfolding whole_word_hit_def by blast
qed

lemma long_answer_test: "whole_word_hit ''test'' long_answer"
proof -
  have "long_answer = ''Design '' @ ''test'' @ ('' a'' @ concat (replicate 77 '' a''))"
    by (simp add: long_answer_def)
  moreover have "lower ''test'' = ''test''" by code_simp
  moreover have "''Design '' = [] \<or> \<not> is_word (last ''Design '')"
    using not_word_space by simp
  moreover have "'' a'' @ concat (replicate 77 '' a'') = [] \<or>
      \<not> is_word (hd ('' a'' @ concat (replicate 77 '' a'')))"
    using not_word_space by simp
  ultimately show ?thesis unfolding whole_word_hit_def by blast
qed

lemma design_test_terms:
  "''design'' \<in> set KEY_TERMS" "''test'' \<in> set KEY_TERMS" "''design'' \<noteq> ''test''"
  by (simp_all add: KEY_TERMS_def)

theorem heuristic_score_rule_witness:
  "strip long_answer \<noteq> [] \<and> 80 \<le> count_tokens False (strip long_answer) \<and>
   score (fallback_score_and_text long_answer) = 5"
proof -
  have ne: "strip long_answer \<noteq> []" unfolding long_answer_strip by (rule long_answer_nonempty)
  have tk: "80 \<le> count_tokens False (strip long_answer)"
    unfolding long_answer_strip by (rule long_answer_tokens)
  have h1: "whole_word_hit ''design'' (strip long_answer)"
    unfolding long_answer_strip by (rule long_answer_design)
  have h2: "whole_word_hit ''test'' (strip long_answer)"
    unfolding long_answer_strip by (rule long_answer_test)
  have "score (fallback_score_and_text long_answer) = 5"
    by (rule heuristic_score_rule [OF ne, THEN conjunct2, THEN spec, THEN spec, THEN mp, THEN mp,
          THEN mp, THEN mp, THEN mp, THEN mp, OF design_test_terms h1 h2 tk])
  with ne tk show ?thesis by (intro conjI)
qed



lemma trim_sandwich:
  assumes a: "\<forall>c \<in> set a. P c" and b: "\<forall>c \<in> set b. P c"
    and m: "m = [] \<or> (\<not> P (hd m) \<and> \<not> P (last m))"
  shows "rev (dropWhile P (rev (dropWhile P (a @ m @ b)))) = m"
proof (cases "m = []")
  case True
  have "\<forall>x \<in> set (a @ b). P x" using a b by auto
  then have "dropWhile P (a @ b) = []" by (simp only: dropWhile_eq_Nil_conv)
  then show ?thesis unfolding True append_Nil
    by (simp only: rev.simps(1) dropWhile.simps(1))
next
  case False
  with m have h: "\<not> P (hd m)" and l: "\<not> P (last m)" by simp_all
  from False obtain x xs where mx: "m = x # xs" by (cases m) simp_all
  have d1: "dropWhile P (a @ m @ b) = m @ b"
    using a h mx by (simp add: dropWhile_append2)
  have "rev m \<noteq> []" using False by simp
  then obtain y ys where ry: "rev m = y # ys" by (cases "rev m") simp_all
  have "y = last m" using ry False by (metis last_rev list.sel(1) rev_rev_ident hd_rev)
  with l have ny: "\<not> P y" by simp
  have "\<And>x. x \<in> set (rev b) \<Longrightarrow> P x" using b by simp
  then have "dropWhile P (rev b @ rev m) = dropWhile P (rev m)"
    by (rule dropWhile_append2)
  also have "\<dots> = rev m" unfolding ry using ny by simp
  finally have d2: "dropWhile P (rev b @ rev m) = rev m" .
  show ?thesis unfolding d1 by (simp add: d2)
qed

lemma trim_decomp:
  fixes X :: "'a list" and P :: "'a \<Rightarrow> bool"
  defines "T \<equiv> rev (dropWhile P (rev (dropWhile P X)))"
  shows "\<exists>a b. X = a @ T @ b \<and> (\<forall>c \<in> set a. P c) \<and> (\<forall>c \<in> set b. P c) \<and>
         (T = [] \<or> (\<not> P (hd T) \<and> \<not> P (last T)))"
proof -
  define a where "a = takeWhile P X"
  define Y where "Y = dropWhile P X"
  define b where "b = rev (takeWhile P (rev Y))"
  have s: "T = rev (dropWhile P (rev Y))" by (simp add: T_def Y_def)
  have "Y = rev (dropWhile P (rev Y)) @ rev (takeWhile P (rev Y))"
    by (metis rev_append rev_rev_ident takeWhile_dropWhile_id)
  then have Yd: "Y = T @ b" by (simp only: s b_def)
  have Xd: "X = a @ T @ b" unfolding Yd [symmetric] a_def Y_def by simp
  have sa: "\<forall>c \<in> set a. P c" unfolding a_def by (auto dest: set_takeWhileD)
  have sb: "\<forall>c \<in> set b. P c" unfolding b_def by (auto dest: set_takeWhileD)
  have ends: "\<not> P (hd T) \<and> \<not> P (last T)" if ne: "T \<noteq> []"
  proof
    from ne have "Y \<noteq> []" using Yd by auto
    then have "\<not> P (hd Y)" unfolding Y_def by (rule hd_dropWhile)
    moreover have "hd Y = hd T" using Yd ne by (metis hd_append2)
    ultimately show "\<not> P (hd T)" by simp
    from ne have d: "dropWhile P (rev Y) \<noteq> []" by (simp add: s)
    then have "\<not> P (hd (dropWhile P (rev Y)))" by (rule hd_dropWhile)
    moreover have "last T = hd (dropWhile P (rev Y))"
      unfolding s using d by (simp add: last_rev)
    ultimately show "\<not> P (last T)" by simp
  qed
  then have e: "T = [] \<or> (\<not> P (hd T) \<and> \<not> P (last T))"
    by (cases "T = []") simp_all
  from Xd sa sb e show ?thesis by (intro exI conjI)
qed



lemma is_digit_iff: "is_digit c \<longleftrightarrow> c \<in> set ''0123456789''"
proof
  assume "is_digit c"
  define n where "n = (of_char c :: nat)"
  have c: "\<And>d. (c = d) = (n = of_char d)"
    unfolding n_def by (simp only: of_char_eq_iff)
  from \<open>is_digit c\<close> have "48 \<le> n" "n \<le> 57" by (simp_all add: is_digit_def n_def)
  then have "n = 48 \<or> n = 49 \<or> n = 50 \<or> n = 51 \<or> n = 52 \<or> n = 53 \<or> n = 54
    \<or> n = 55 \<or> n = 56 \<or> n = 57" by arith
  then show "c \<in> set ''0123456789''"
    by (simp add: c)
next
  assume "c \<in> set ''0123456789''"
  then show "is_digit c" by (auto simp: is_digit_def)
qed

lemma underscore_not_digit: "\<not> is_digit CHR ''_''"
  by (simp add: is_digit_def)

lemma digits_ok_iff:
  "digits_ok ds \<longleftrightarrow>
     ds \<noteq> [] \<and> is_digit (hd ds) \<and> is_digit (last ds) \<and>
     (\<forall>c \<in> set ds. is_digit c \<or> c = CHR ''_'') \<and>
     successively (\<lambda>a b. \<not> (a = CHR ''_'' \<and> b = CHR ''_'')) ds"
proof (induction ds rule: digits_ok.induct)
  case 1
  show ?case by simp
next
  case (2 c)
  show ?case by auto
next
  case (3 c d cs)
  show ?case
  proof (cases "d = CHR ''_''")
    case True
    note IH = "3.IH"(1) [OF True]
    show ?thesis
      unfolding digits_ok.simps IH True
      using underscore_not_digit by (cases cs) auto
  next
    case False
    note IH = "3.IH"(2) [OF False]
    show ?thesis
      unfolding digits_ok.simps IH
      using False underscore_not_digit by auto
  qed
qed

lemma digits_value_snoc:
  "digits_value (xs @ [x]) = 10 * digits_value xs + (int (of_char x) - 48)"
  by (simp add: digits_value_def)

lemma decimal_value_snoc:
  "decimal_value (xs @ [x]) = 10 * decimal_value xs + (int (of_char x) - 48)"
proof -
  have "(\<Sum>i < length xs. (int (of_char ((xs @ [x]) ! i)) - 48) * 10 ^ (Suc (length xs) - Suc i)) =
        (\<Sum>i < length xs. 10 * ((int (of_char (xs ! i)) - 48) * 10 ^ (length xs - Suc i)))"
  proof (rule sum.cong [OF refl])
    fix i assume "i \<in> {..< length xs}"
    then have i: "i < length xs" by simp
    then have "Suc (length xs) - Suc i = Suc (length xs - Suc i)" by simp
    then show "(int (of_char ((xs @ [x]) ! i)) - 48) * 10 ^ (Suc (length xs) - Suc i) =
        10 * ((int (of_char (xs ! i)) - 48) * 10 ^ (length xs - Suc i))"
      using i by (simp add: nth_append)
  qed
  then show ?thesis
    by (simp add: decimal_value_def sum_distrib_left)
qed

lemma digits_value_decimal: "digits_value ds = decimal_value ds"
proof (induction ds rule: rev_induct)
  case Nil
  show ?case by (simp add: digits_value_def decimal_value_def)
next
  case (snoc x xs)
  then show ?case by (simp only: digits_value_snoc decimal_value_snoc)
qed



lemma find_char_first:
  "c \<notin> set pre \<Longrightarrow> find_char c (pre @ c # rest) = int (length pre)"
proof -
  assume a: "c \<notin> set pre"
  then have "takeWhile (\<lambda>d. d \<noteq> c) pre = pre"
    by (auto simp: takeWhile_eq_all_conv)
  then have "takeWhile (\<lambda>d. d \<noteq> c) (pre @ c # rest) = pre"
    by (simp add: takeWhile_tail)
  then show ?thesis by (simp add: find_char_def)
qed

lemma rfind_char_last:
  "c \<notin> set post \<Longrightarrow> rfind_char c (pre @ c # post) = int (length pre)"
proof -
  assume a: "c \<notin> set post"
  then have "takeWhile (\<lambda>d. d \<noteq> c) (rev post) = rev post"
    by (auto simp: takeWhile_eq_all_conv)
  then have "takeWhile (\<lambda>d. d \<noteq> c) (rev post @ c # rev pre) = rev post"
    by (simp add: takeWhile_tail)
  then have "takeWhile (\<lambda>d. d \<noteq> c) (rev (pre @ c # post)) = rev post"
    by simp
  then show ?thesis unfolding rfind_char_def by simp
qed

lemma json_span_intro:
  assumes raw: "raw = pre @ CHR ''{'' # mid @ CHR ''}'' # post"
    and pre: "CHR ''{'' \<notin> set pre" and post: "CHR ''}'' \<notin> set post"
  shows "json_span raw = Some (CHR ''{'' # mid @ [CHR ''}''])"
proof -
  have f: "find_char CHR ''{'' raw = int (length pre)"
    unfolding raw using pre by (rule find_char_first)
  have raw': "raw = (pre @ CHR ''{'' # mid) @ CHR ''}'' # post" by (simp add: raw)
  have "rfind_char CHR ''}'' raw = int (length (pre @ CHR ''{'' # mid))"
    unfolding raw' using post by (rule rfind_char_last)
  then have r: "rfind_char CHR ''}'' raw = int (length pre) + 1 + int (length mid)" by simp
  have n: "nat (int (length pre) + 1 + int (length mid) + 1) = length (pre @ CHR ''{'' # mid @ [CHR ''}''])"
    by simp
  have "take (length (pre @ CHR ''{'' # mid @ [CHR ''}''])) raw = pre @ CHR ''{'' # mid @ [CHR ''}'']"
  proof -
    have g: "take (length xs) (xs @ ys) = xs" for xs ys :: string by simp
    have e: "raw = (pre @ CHR ''{'' # mid @ [CHR ''}'']) @ post" by (simp add: raw)
    show ?thesis unfolding e by (rule g)
  qed
  then have d: "drop (length pre) (take (nat (int (length pre) + 1 + int (length mid) + 1)) raw) =
      CHR ''{'' # mid @ [CHR ''}'']"
    by (simp only: n) simp
  show ?thesis
    unfolding json_span_def f r Let_def using d by simp
qed

lemma json_span_elim:
  assumes "json_span raw = Some c"
  shows "\<exists>pre mid post. raw = pre @ CHR ''{'' # mid @ CHR ''}'' # post \<and>
           c = CHR ''{'' # mid @ [CHR ''}''] \<and> CHR ''{'' \<notin> set pre \<and> CHR ''}'' \<notin> set post"
proof -
  from assms have s: "find_char CHR ''{'' raw \<noteq> - 1" and e: "rfind_char CHR ''}'' raw \<noteq> - 1"
    and lt: "find_char CHR ''{'' raw < rfind_char CHR ''}'' raw"
    by (simp_all add: json_span_def Let_def split: if_splits)
  from s have "CHR ''{'' \<in> set raw" by (auto simp: find_char_def split: if_splits)
  then obtain pre Y where r1: "raw = pre @ CHR ''{'' # Y" and pre: "CHR ''{'' \<notin> set pre"
    by (auto dest: split_list_first)
  from e have "CHR ''}'' \<in> set raw" by (auto simp: rfind_char_def split: if_splits)
  then obtain X post where r2: "raw = X @ CHR ''}'' # post" and post: "CHR ''}'' \<notin> set post"
    by (auto dest: split_list_last)
  have f: "find_char CHR ''{'' raw = int (length pre)"
    unfolding r1 using pre by (rule find_char_first)
  have r: "rfind_char CHR ''}'' raw = int (length X)"
    unfolding r2 using post by (rule rfind_char_last)
  from lt have len: "length pre < length X" by (simp add: f r)
  from r1 r2 have eq: "pre @ CHR ''{'' # Y = X @ CHR ''}'' # post" by simp
  then obtain us where
    "(pre = X @ us \<and> us @ CHR ''{'' # Y = CHR ''}'' # post) \<or>
     (pre @ us = X \<and> CHR ''{'' # Y = us @ CHR ''}'' # post)"
    unfolding append_eq_append_conv2 by (rule exE)
  then have u: "pre @ us = X" "CHR ''{'' # Y = us @ CHR ''}'' # post"
    using len by auto
  from u(1) len have "us \<noteq> []" by auto
  then obtain u0 mid where us: "us = u0 # mid" by (cases us) simp_all
  from u(2) have u0: "u0 = CHR ''{''" by (simp add: us)
  have raw: "raw = pre @ CHR ''{'' # mid @ CHR ''}'' # post"
    unfolding r2 u(1) [symmetric] us u0 by simp
  from raw pre post have "json_span raw = Some (CHR ''{'' # mid @ [CHR ''}''])"
    by (rule json_span_intro)
  with assms have c: "c = CHR ''{'' # mid @ [CHR ''}'']" by simp
  from raw c pre post show ?thesis by (intro exI conjI)
qed

lemma json_span_iff: "json_span raw = Some c \<longleftrightarrow> brace_span raw c"
proof
  assume js: "json_span raw = Some c"
  from json_span_elim [OF js] obtain pre mid post where
    "raw = pre @ CHR ''{'' # mid @ CHR ''}'' # post" "c = CHR ''{'' # mid @ [CHR ''}'']"
    "CHR ''{'' \<notin> set pre" "CHR ''}'' \<notin> set post"
    by (elim exE conjE)
  then have "raw = pre @ c @ post \<and> c = CHR ''{'' # mid @ [CHR ''}''] \<and>
        CHR ''{'' \<notin> set pre \<and> CHR ''}'' \<notin> set post" by simp
  then show "brace_span raw c" unfolding brace_span_def by (intro exI)
next
  assume "brace_span raw c"
  then obtain pre mid post where
    a: "raw = pre @ c @ post" and c: "c = CHR ''{'' # mid @ [CHR ''}'']" and
    p: "CHR ''{'' \<notin> set pre" "CHR ''}'' \<notin> set post"
    unfolding brace_span_def by (elim exE conjE)
  from a have "raw = pre @ CHR ''{'' # mid @ CHR ''}'' # post" by (simp add: c)
  then show "json_span raw = Some c" unfolding c using p by (rule json_span_intro)
qed

lemma json_span_None_iff: "json_span raw = None \<longleftrightarrow> (\<forall>c. \<not> brace_span raw c)"
  by (simp add: json_span_iff [symmetric])



lemma sign_not_space: "\<not> int_space CHR ''-''" "\<not> int_space CHR ''+''"
  by (simp_all add: int_space_def)

lemma digit_facts:
  assumes "is_digit c"
  shows "\<not> int_space c" and "c \<noteq> CHR ''-''" and "c \<noteq> CHR ''+''"
  using assms by (auto simp: is_digit_def int_space_def)

lemma trunc_iff: "trunc q = n \<longleftrightarrow> toward_zero q n"
  unfolding trunc_def toward_zero_def
  by (auto simp: floor_eq_iff ceiling_eq_iff)

lemma int_of_str_literal:
  assumes r: "int_of_str s = Inr n"
  shows "int_literal s n"
proof -
  define t where "t = rev (dropWhile int_space (rev (dropWhile int_space s)))"
  define sgn where "sgn = (t \<noteq> [] \<and> (hd t = CHR ''-'' \<or> hd t = CHR ''+''))"
  define body where "body = (if sgn then tl t else t)"
  define sg where "sg = (if sgn then [hd t] else [])"
  define ds where "ds = filter (\<lambda>c. c \<noteq> CHR ''_'') body"
  have unf: "int_of_str s =
      (if digits_ok body \<and> length ds \<le> 4300
       then Inr (if t \<noteq> [] \<and> hd t = CHR ''-'' then - digits_value ds else digits_value ds)
       else Inl ValueError)"
    by (simp add: int_of_str_def Let_def t_def body_def ds_def sgn_def int_max_str_digits_def)
  from r have ok: "digits_ok body" and len: "length ds \<le> 4300"
    and n: "n = (if t \<noteq> [] \<and> hd t = CHR ''-'' then - digits_value ds else digits_value ds)"
    unfolding unf by (auto split: if_splits)
  have tb: "t = sg @ body" unfolding sg_def body_def sgn_def by (cases t) simp_all
  have sgc: "sg = [] \<or> sg = ''+'' \<or> sg = ''-''" unfolding sg_def sgn_def by auto
  have neg: "(sg = ''-'') = (t \<noteq> [] \<and> hd t = CHR ''-'')" unfolding sg_def sgn_def by auto
  from trim_decomp [of s int_space] obtain a b where
    s: "s = a @ t @ b" and a: "\<forall>c \<in> set a. int_space c" and b: "\<forall>c \<in> set b. int_space c"
    unfolding t_def by (elim exE conjE)
  from ok have d1: "body \<noteq> []" and d2: "is_digit (hd body)" and d3: "is_digit (last body)"
    and d4: "\<forall>c \<in> set body. is_digit c \<or> c = CHR ''_''"
    and d5: "successively (\<lambda>a b. \<not> (a = CHR ''_'' \<and> b = CHR ''_'')) body"
    unfolding digits_ok_iff by simp_all
  have c1: "s = a @ sg @ body @ b" by (simp add: s tb)
  have c2: "\<forall>c \<in> set a \<union> set b. of_char c \<in> {9, 10, 11, 12, 13, 32, 133, 160 :: nat}"
    using a b unfolding int_space_def by (simp only: ball_Un)
  have c3: "hd body \<in> set ''0123456789''" using d2 by (simp only: is_digit_iff)
  have c4: "last body \<in> set ''0123456789''" using d3 by (simp only: is_digit_iff)
  have c5: "set body \<subseteq> set ''0123456789_''"
  proof
    fix c assume "c \<in> set body"
    with d4 have "is_digit c \<or> c = CHR ''_''" by (rule bspec)
    then have "c \<in> set ''0123456789'' \<or> c = CHR ''_''" by (simp only: is_digit_iff)
    then show "c \<in> set ''0123456789_''" by auto
  qed
  have c6: "length (filter (\<lambda>c. c \<noteq> CHR ''_'') body) \<le> 4300" using len by (simp only: ds_def)
  have c7: "n = (if sg = ''-'' then - decimal_value (filter (\<lambda>c. c \<noteq> CHR ''_'') body)
             else decimal_value (filter (\<lambda>c. c \<noteq> CHR ''_'') body))"
    unfolding neg n ds_def by (simp only: digits_value_decimal)
  from c1 c2 sgc d1 c3 c4 c5 d5 c6 c7 show ?thesis
    unfolding int_literal_def by (intro exI conjI)
qed

lemma literal_int_of_str:
  assumes "int_literal s n"
  shows "int_of_str s = Inr n"
proof -
  from assms obtain ws1 sg ds ws2 where
    s: "s = ws1 @ sg @ ds @ ws2" and
    ws: "\<forall>c \<in> set ws1 \<union> set ws2. of_char c \<in> {9, 10, 11, 12, 13, 32, 133, 160 :: nat}" and
    sgc: "sg = [] \<or> sg = ''+'' \<or> sg = ''-''" and
    ne: "ds \<noteq> []" and h: "hd ds \<in> set ''0123456789''" and l: "last ds \<in> set ''0123456789''" and
    sub: "set ds \<subseteq> set ''0123456789_''" and
    suc: "successively (\<lambda>a b. \<not> (a = CHR ''_'' \<and> b = CHR ''_'')) ds" and
    len: "length (filter (\<lambda>c. c \<noteq> CHR ''_'') ds) \<le> 4300" and
    n: "n = (if sg = ''-'' then - decimal_value (filter (\<lambda>c. c \<noteq> CHR ''_'') ds)
             else decimal_value (filter (\<lambda>c. c \<noteq> CHR ''_'') ds))"
    unfolding int_literal_def by (elim exE conjE)
  have hd: "is_digit (hd ds)" using h by (simp only: is_digit_iff)
  have ld: "is_digit (last ds)" using l by (simp only: is_digit_iff)
  have al: "\<forall>c \<in> set ds. is_digit c \<or> c = CHR ''_''"
  proof
    fix c assume "c \<in> set ds"
    with sub have "c \<in> set ''0123456789_''" by (rule subsetD)
    then have "c \<in> set ''0123456789'' \<or> c = CHR ''_''" by auto
    then show "is_digit c \<or> c = CHR ''_''" by (simp only: is_digit_iff)
  qed
  have ok: "digits_ok ds" unfolding digits_ok_iff using ne hd ld al suc by (intro conjI)
  have a: "\<forall>c \<in> set ws1. int_space c" and b: "\<forall>c \<in> set ws2. int_space c"
    using ws unfolding int_space_def by auto
  have m: "sg @ ds = [] \<or> (\<not> int_space (hd (sg @ ds)) \<and> \<not> int_space (last (sg @ ds)))"
  proof (rule disjI2, rule conjI)
    from sgc show "\<not> int_space (hd (sg @ ds))"
      using digit_facts(1) [OF hd] sign_not_space by (elim disjE) simp_all
    show "\<not> int_space (last (sg @ ds))"
      using digit_facts(1) [OF ld] ne by simp
  qed
  have "s = ws1 @ (sg @ ds) @ ws2" by (simp add: s)
  then have t: "rev (dropWhile int_space (rev (dropWhile int_space s))) = sg @ ds"
    using trim_sandwich [OF a b m] by (simp only:)
  have dv: "digits_value (filter (\<lambda>c. c \<noteq> CHR ''_'') ds) = decimal_value (filter (\<lambda>c. c \<noteq> CHR ''_'') ds)"
    by (rule digits_value_decimal)
  from sgc show ?thesis
  proof (elim disjE)
    assume sg: "sg = []"
    show ?thesis
      unfolding int_of_str_def t sg Let_def
      using ne digit_facts(2,3) [OF hd] ok len
      by (simp add: int_max_str_digits_def n sg dv)
  next
    assume sg: "sg = ''+''"
    show ?thesis
      unfolding int_of_str_def t sg Let_def
      using ok len by (simp add: int_max_str_digits_def n sg dv)
  next
    assume sg: "sg = ''-''"
    show ?thesis
      unfolding int_of_str_def t sg Let_def
      using ok len by (simp add: int_max_str_digits_def n sg dv)
  qed
qed

lemma int_of_str_iff: "int_of_str s = Inr n \<longleftrightarrow> int_literal s n"
  using int_of_str_literal literal_int_of_str by blast

lemma int_of_str_fails: "isl (int_of_str s) \<longleftrightarrow> (\<forall>n. \<not> int_literal s n)"
  unfolding int_of_str_iff [symmetric] by (cases "int_of_str s") simp_all

lemma py_int_raises: "isl (py_int v) \<longleftrightarrow> int_raises v"
  by (cases v rule: py_int.cases) (simp_all add: int_raises_def int_of_str_fails)

lemma py_int_value: "py_int v = Inr n \<longleftrightarrow> int_value v n"
  by (cases v rule: py_int.cases) (auto simp: int_value_def int_of_str_iff trunc_iff)



lemma trimmed_iff: "(t = strip s) = trimmed_of s t"
proof
  assume t: "t = strip s"
  from trim_decomp [of s isspace] obtain a b where
    "s = a @ strip s @ b" "\<forall>c \<in> set a. isspace c" "\<forall>c \<in> set b. isspace c"
    "strip s = [] \<or> (\<not> isspace (hd (strip s)) \<and> \<not> isspace (last (strip s)))"
    unfolding strip_def by (elim exE conjE)
  then have "s = a @ t @ b \<and> (\<forall>c \<in> set a \<union> set b. isspace c) \<and>
        (t = [] \<or> (\<not> isspace (hd t) \<and> \<not> isspace (last t)))"
    unfolding t by (simp only: ball_Un simp_thms)
  then show "trimmed_of s t" unfolding trimmed_of_def by (intro exI)
next
  assume "trimmed_of s t"
  then obtain a b where s: "s = a @ t @ b" and ab: "\<forall>c \<in> set a \<union> set b. isspace c"
    and t: "t = [] \<or> (\<not> isspace (hd t) \<and> \<not> isspace (last t))"
    unfolding trimmed_of_def by (elim exE conjE)
  from ab have a: "\<forall>c \<in> set a. isspace c" and b: "\<forall>c \<in> set b. isspace c"
    by auto
  show "t = strip s"
    unfolding strip_def s by (rule trim_sandwich [OF a b t, symmetric])
qed

text \<open>
  Claim C4, amended.  \<^verbatim>\<open>parse_model_json\<close> raises exactly when the text has no part that runs
  from its first opening brace to its last closing brace with the closing brace later, or
  decoding that part raises or does not give an object, or the object has a \<^verbatim>\<open>score\<close> without
  an integer value: null, a list, an object, NaN, an infinity, or a string that is not an
  integer literal.  When it returns, the score is 1 if the field is missing and otherwise the
  integer value of the field (an integer itself, true as 1 and false as 0, a finite float
  truncated toward zero, a string as the integer literal it is) clamped to 1..5; the summary
  and the improvement are empty if missing and otherwise the string form of the field without
  its leading and trailing whitespace.
\<close>

theorem parse_model_json_spec:
  "(isl (parse_model_json E raw) \<longleftrightarrow>
      (\<forall>c. \<not> brace_span raw c) \<or>
      (\<exists>c. brace_span raw c \<and>
         (isl (json_loads E c) \<or>
          (\<exists>v. json_loads E c = Inr v \<and> (\<forall>d. v \<noteq> JObject d)) \<or>
          (\<exists>d v. json_loads E c = Inr (JObject d) \<and> map_of d ''score'' = Some v \<and>
                 int_raises v)))) \<and>
   (\<forall>r. parse_model_json E raw = Inr r \<longrightarrow>
      (\<exists>c d. brace_span raw c \<and> json_loads E c = Inr (JObject d) \<and>
         (map_of d ''score'' = None \<longrightarrow> score r = 1) \<and>
         (\<forall>v. map_of d ''score'' = Some v \<longrightarrow>
              (\<exists>n. int_value v n \<and> score r = max 1 (min 5 n))) \<and>
         (map_of d ''summary'' = None \<longrightarrow> summary r = []) \<and>
         (\<forall>v. map_of d ''summary'' = Some v \<longrightarrow> trimmed_of (py_str E v) (summary r)) \<and>
         (map_of d ''improvement'' = None \<longrightarrow> improvement r = []) \<and>
         (\<forall>v. map_of d ''improvement'' = Some v \<longrightarrow>
              trimmed_of (py_str E v) (improvement r))))"
  by (rule parse_model_json_cases [of E raw,
        unfolded json_span_None_iff json_span_iff py_int_raises py_int_value trimmed_iff])

lemma span_none: "json_span raw_none = None"
  by code_simp

lemma high_raises: "isl (py_int (JString ''high''))"
  by code_simp

theorem parse_model_json_spec_witness:
  "isl (parse_model_json timeout_env raw_none) \<and>
   isl (parse_model_json (reply_env raw_high (JObject [(''score'', JString ''high'')])) raw_high) \<and>
   parse_model_json (reply_env raw_full parsed_full) raw_full =
     Inr \<lparr>score = 5, summary = ''ok'', improvement = ''none''\<rparr> \<and>
   json_span raw_full = Some raw_full \<and>
   json_loads (reply_env raw_full parsed_full) raw_full = Inr parsed_full \<and>
   (\<exists>n. py_int (JInt 5) = Inr n \<and>
        score \<lparr>score = 5, summary = ''ok'', improvement = ''none''\<rparr> = max 1 (min 5 n)) \<and>
   summary \<lparr>score = 5, summary = ''ok'', improvement = ''none''\<rparr> =
     strip (py_str (reply_env raw_full parsed_full) (JString ''ok''))"
proof -
  let ?E = "reply_env raw_full parsed_full"
  let ?H = "reply_env raw_high (JObject [(''score'', JString ''high'')])"
  let ?r = "\<lparr>score = 5, summary = ''ok'', improvement = ''none''\<rparr>"
  have n0: "\<forall>c. \<not> brace_span raw_none c"
    by (rule json_span_None_iff [THEN iffD1, OF span_none])
  have a: "isl (parse_model_json timeout_env raw_none)"
    by (rule parse_model_json_spec [THEN conjunct1, THEN iffD2, OF disjI1, OF n0])
  have h1: "brace_span raw_high raw_high"
    by (rule json_span_iff [THEN iffD1, OF span_high])
  have h2: "json_loads ?H raw_high = Inr (JObject [(''score'', JString ''high'')])"
    by (rule loads_reply)
  have h3: "map_of [(''score'', JString ''high'')] ''score'' = Some (JString ''high'')" by simp
  have h4: "int_raises (JString ''high'')"
    by (rule py_int_raises [THEN iffD1, OF high_raises])
  from h2 h3 h4 have "\<exists>d v. json_loads ?H raw_high = Inr (JObject d) \<and>
      map_of d ''score'' = Some v \<and> int_raises v"
    by (intro exI conjI)
  then have "isl (json_loads ?H raw_high) \<or>
      (\<exists>v. json_loads ?H raw_high = Inr v \<and> (\<forall>d. v \<noteq> JObject d)) \<or>
      (\<exists>d v. json_loads ?H raw_high = Inr (JObject d) \<and> map_of d ''score'' = Some v \<and>
             int_raises v)"
    by (rule disjI2 [THEN disjI2])
  with h1 have "\<exists>c. brace_span raw_high c \<and>
      (isl (json_loads ?H c) \<or>
       (\<exists>v. json_loads ?H c = Inr v \<and> (\<forall>d. v \<noteq> JObject d)) \<or>
       (\<exists>d v. json_loads ?H c = Inr (JObject d) \<and> map_of d ''score'' = Some v \<and>
              int_raises v))"
    by (intro exI conjI)
  then have h: "isl (parse_model_json ?H raw_high)"
    by (rule parse_model_json_spec [THEN conjunct1, THEN iffD2, OF disjI2])
  note b = parse_model_json_spec [of ?E raw_full,
      THEN conjunct2, THEN spec, THEN mp, OF parse_full]
  from b obtain c d where
    sp: "brace_span raw_full c" and ld: "json_loads ?E c = Inr (JObject d)" and
    sc: "\<forall>v. map_of d ''score'' = Some v \<longrightarrow> (\<exists>n. int_value v n \<and> score ?r = max 1 (min 5 n))" and
    su: "\<forall>v. map_of d ''summary'' = Some v \<longrightarrow> trimmed_of (py_str ?E v) (summary ?r)"
    by (elim exE conjE)
  from sp have "json_span raw_full = Some c" by (rule json_span_iff [THEN iffD2])
  with span_full have c: "c = raw_full" by simp
  from ld loads_reply [of raw_full parsed_full] have d: "JObject d = parsed_full"
    unfolding c by simp
  then have dd: "d = [(''score'', JInt 5), (''summary'', JString ''ok''),
     (''improvement'', JString ''none'')]"
    by (simp add: parsed_full_def)
  have m1: "map_of d ''score'' = Some (JInt 5)" unfolding dd by simp
  have m2: "map_of d ''summary'' = Some (JString ''ok'')" unfolding dd by simp
  have "\<exists>n. int_value (JInt 5) n \<and> score ?r = max 1 (min 5 n)"
    by (rule sc [THEN spec, THEN mp, OF m1])
  then have r1: "\<exists>n. py_int (JInt 5) = Inr n \<and> score ?r = max 1 (min 5 n)"
    by (simp only: py_int_value)
  have "trimmed_of (py_str ?E (JString ''ok'')) (summary ?r)"
    by (rule su [THEN spec, THEN mp, OF m2])
  then have r2: "summary ?r = strip (py_str ?E (JString ''ok''))"
    by (rule trimmed_iff [THEN iffD2])
  from a h parse_full span_full loads_reply [of raw_full parsed_full] r1 r2
  show ?thesis by (intro conjI)
qed



lemma normalize_score_raises:
  assumes "map_of d ''score'' = Some v" and "isl (py_int v)"
  shows "isl (normalize_parsed E (JObject d))"
proof -
  from assms(2) obtain e where "py_int v = Inl e" by (cases "py_int v") simp_all
  with assms(1) have "normalize_parsed E (JObject d) = Inl e" by (rule normalize_score_fails)
  then show ?thesis by simp
qed

text \<open>
  Claim C10, as stated, fails: a numeric score that is not an integer is not always truncated,
  and a numeric string is not always accepted.  The JSON number \<^verbatim>\<open>1e999\<close> decodes to the float
  infinity, on which \<^verbatim>\<open>int\<close> raises \<^verbatim>\<open>OverflowError\<close>; on the numeric string \<^verbatim>\<open>"4.9"\<close>
  \<^verbatim>\<open>int\<close> raises \<^verbatim>\<open>ValueError\<close>.  In both cases the parser raises.
\<close>

theorem parse_score_conversion_counterexample:
  "json_span raw_huge = Some raw_huge \<and>
   json_loads (reply_env raw_huge (JObject [(''score'', JFloat PosInf)])) raw_huge =
     Inr (JObject [(''score'', JFloat PosInf)]) \<and>
   parse_model_json (reply_env raw_huge (JObject [(''score'', JFloat PosInf)])) raw_huge =
     Inl OverflowError \<and>
   json_span raw_decimal = Some raw_decimal \<and>
   json_loads (reply_env raw_decimal (JObject [(''score'', JString ''4.9'')])) raw_decimal =
     Inr (JObject [(''score'', JString ''4.9'')]) \<and>
   parse_model_json (reply_env raw_decimal (JObject [(''score'', JString ''4.9'')])) raw_decimal =
     Inl ValueError"
  by code_simp

text \<open>
  Claim C10, amended.  Let the decoded object carry a score.  A finite float is truncated
  toward zero and then clamped.  A float that is NaN or an infinity makes the parser raise.
  A string that is an integer literal (optional whitespace around an optional sign and
  decimal digits, single underscores allowed between digits, at most 4300 digits) counts as
  the integer it writes, which is then clamped; any other string makes the parser raise.
\<close>

theorem parse_score_conversion:
  assumes "brace_span raw c" and "json_loads E c = Inr (JObject d)"
    and "map_of d ''score'' = Some v"
  shows "(\<forall>q. v = JFloat (Finite q) \<longrightarrow>
            (\<exists>n r. toward_zero q n \<and> parse_model_json E raw = Inr r \<and>
                   score r = max 1 (min 5 n))) \<and>
         (v = JFloat NaN \<or> v = JFloat PosInf \<or> v = JFloat NegInf \<longrightarrow>
            isl (parse_model_json E raw)) \<and>
         (\<forall>s n. v = JString s \<and> int_literal s n \<longrightarrow>
            (\<exists>r. parse_model_json E raw = Inr r \<and> score r = max 1 (min 5 n))) \<and>
         (\<forall>s. v = JString s \<and> (\<forall>n. \<not> int_literal s n) \<longrightarrow>
            isl (parse_model_json E raw))"
proof -
  from assms(1) have sp: "json_span raw = Some c" by (rule json_span_iff [THEN iffD2])
  have p: "parse_model_json E raw = normalize_parsed E (JObject d)"
    using sp assms(2) by (rule parse_model_json_object)
  have ok: "\<exists>r. parse_model_json E raw = Inr r \<and> score r = max 1 (min 5 n)"
    if "py_int v = Inr n" for n
    unfolding p using assms(3) that by (rule normalize_parsed_score)
  have bad: "isl (parse_model_json E raw)" if "isl (py_int v)"
    unfolding p using assms(3) that by (rule normalize_score_raises)
  have a: "\<exists>n r. toward_zero q n \<and> parse_model_json E raw = Inr r \<and> score r = max 1 (min 5 n)"
    if v: "v = JFloat (Finite q)" for q
  proof -
    have t: "toward_zero q (trunc q)" by (rule trunc_iff [THEN iffD1, OF refl])
    have "py_int v = Inr (trunc q)" by (simp add: v)
    from ok [OF this] obtain r where
      "parse_model_json E raw = Inr r" "score r = max 1 (min 5 (trunc q))"
      by (elim exE conjE)
    with t show ?thesis by (intro exI conjI)
  qed
  have b: "isl (parse_model_json E raw)"
    if "v = JFloat NaN \<or> v = JFloat PosInf \<or> v = JFloat NegInf"
    using that by (intro bad) (elim disjE, simp_all)
  have c: "\<exists>r. parse_model_json E raw = Inr r \<and> score r = max 1 (min 5 n)"
    if "v = JString s \<and> int_literal s n" for s n
  proof -
    from that have v: "v = JString s" and l: "int_literal s n" by (rule conjunct1, rule conjunct2)
    from l have "int_of_str s = Inr n" by (rule int_of_str_iff [THEN iffD2])
    then have "py_int v = Inr n" by (simp add: v)
    then show ?thesis by (rule ok)
  qed
  have d: "isl (parse_model_json E raw)"
    if "v = JString s \<and> (\<forall>n. \<not> int_literal s n)" for s
  proof -
    from that have v: "v = JString s" and l: "\<forall>n. \<not> int_literal s n"
      by (rule conjunct1, rule conjunct2)
    from l have "isl (int_of_str s)" by (rule int_of_str_fails [THEN iffD2])
    then have "isl (py_int v)" by (simp add: v)
    then show ?thesis by (rule bad)
  qed
  from a b c d show ?thesis by (intro conjI allI impI)
qed

lemma span_huge: "json_span raw_huge = Some raw_huge"
  by code_simp

lemma span_decimal: "json_span raw_decimal = Some raw_decimal"
  by code_simp

lemma span_twelve: "json_span raw_twelve = Some raw_twelve"
  by code_simp

lemma span_minus: "json_span raw_minus = Some raw_minus"
  by code_simp

lemma int_twelve: "int_of_str '' +1_2 '' = Inr 12"
  by code_simp

lemma int_minus: "int_of_str ''-03'' = Inr (- 3)"
  by code_simp

lemma int_four: "int_of_str ''4'' = Inr 4"
  by code_simp

lemma int_decimal: "isl (int_of_str ''4.9'')"
  by code_simp

theorem parse_score_conversion_witness:
  "(\<exists>r. parse_model_json (reply_env raw_float (JObject [(''score'', JFloat (Finite double_4_9))]))
          raw_float = Inr r \<and> score r = 4) \<and>
   (\<exists>r. parse_model_json (reply_env raw_half (JObject [(''score'', JFloat (Finite (1 / 2)))]))
          raw_half = Inr r \<and> score r = 1) \<and>
   isl (parse_model_json (reply_env raw_huge (JObject [(''score'', JFloat PosInf)])) raw_huge) \<and>
   (\<exists>r. parse_model_json (reply_env raw_twelve (JObject [(''score'', JString '' +1_2 '')]))
          raw_twelve = Inr r \<and> score r = 5) \<and>
   (\<exists>r. parse_model_json (reply_env raw_minus (JObject [(''score'', JString ''-03'')]))
          raw_minus = Inr r \<and> score r = 1) \<and>
   (\<exists>r. parse_model_json (reply_env raw_four (JObject [(''score'', JString ''4'')]))
          raw_four = Inr r \<and> score r = 4) \<and>
   isl (parse_model_json (reply_env raw_decimal (JObject [(''score'', JString ''4.9'')]))
          raw_decimal)"
proof -
  let ?v1 = "JFloat (Finite double_4_9)"
  let ?v2 = "JFloat (Finite (1 / 2))"
  let ?v3 = "JFloat PosInf"
  let ?v4 = "JString '' +1_2 ''"
  let ?v5 = "JString ''-03''"
  let ?v6 = "JString ''4''"
  let ?v7 = "JString ''4.9''"
  have m: "map_of [(''score'', v)] ''score'' = Some v" for v :: json by simp
  note b1 = json_span_iff [THEN iffD1, OF span_float]
  note b2 = json_span_iff [THEN iffD1, OF span_half]
  note b3 = json_span_iff [THEN iffD1, OF span_huge]
  note b4 = json_span_iff [THEN iffD1, OF span_twelve]
  note b5 = json_span_iff [THEN iffD1, OF span_minus]
  note b6 = json_span_iff [THEN iffD1, OF span_four]
  note b7 = json_span_iff [THEN iffD1, OF span_decimal]
  note t1 = parse_score_conversion [OF b1 loads_reply m, of ?v1,
      THEN conjunct1, THEN spec, THEN mp, OF refl]
  note t2 = parse_score_conversion [OF b2 loads_reply m, of ?v2,
      THEN conjunct1, THEN spec, THEN mp, OF refl]
  have i3: "?v3 = JFloat NaN \<or> ?v3 = JFloat PosInf \<or> ?v3 = JFloat NegInf" by simp
  note t3 = parse_score_conversion [OF b3 loads_reply m, of ?v3,
      THEN conjunct2, THEN conjunct1, THEN mp, OF i3]
  have i4: "?v4 = JString '' +1_2 '' \<and> int_literal '' +1_2 '' 12"
    using int_of_str_iff [THEN iffD1, OF int_twelve] by simp
  note t4 = parse_score_conversion [OF b4 loads_reply m, of ?v4,
      THEN conjunct2, THEN conjunct2, THEN conjunct1, THEN spec, THEN spec, THEN mp, OF i4]
  have i5: "?v5 = JString ''-03'' \<and> int_literal ''-03'' (- 3)"
    using int_of_str_iff [THEN iffD1, OF int_minus] by simp
  note t5 = parse_score_conversion [OF b5 loads_reply m, of ?v5,
      THEN conjunct2, THEN conjunct2, THEN conjunct1, THEN spec, THEN spec, THEN mp, OF i5]
  have i6: "?v6 = JString ''4'' \<and> int_literal ''4'' 4"
    using int_of_str_iff [THEN iffD1, OF int_four] by simp
  note t6 = parse_score_conversion [OF b6 loads_reply m, of ?v6,
      THEN conjunct2, THEN conjunct2, THEN conjunct1, THEN spec, THEN spec, THEN mp, OF i6]
  have i7: "?v7 = JString ''4.9'' \<and> (\<forall>n. \<not> int_literal ''4.9'' n)"
    using int_of_str_fails [THEN iffD1, OF int_decimal] by simp
  note t7 = parse_score_conversion [OF b7 loads_reply m, of ?v7,
      THEN conjunct2, THEN conjunct2, THEN conjunct2, THEN spec, THEN mp, OF i7]
  from t1 obtain n1 r1 where "toward_zero double_4_9 n1"
    and p1: "parse_model_json (reply_env raw_float (JObject [(''score'', ?v1)])) raw_float = Inr r1"
    and s1: "score r1 = max 1 (min 5 n1)"
    by (elim exE conjE)
  then have "trunc double_4_9 = n1" by (simp only: trunc_iff)
  then have "n1 = 4" by (simp only: trunc_double)
  with s1 have "score r1 = 4" by simp
  with p1 have r1: "\<exists>r. parse_model_json (reply_env raw_float (JObject [(''score'', ?v1)]))
      raw_float = Inr r \<and> score r = 4"
    by (intro exI conjI)
  from t2 obtain n2 r2 where "toward_zero (1 / 2) n2"
    and p2: "parse_model_json (reply_env raw_half (JObject [(''score'', ?v2)])) raw_half = Inr r2"
    and s2: "score r2 = max 1 (min 5 n2)"
    by (elim exE conjE)
  then have "trunc (1 / 2) = n2" by (simp only: trunc_iff)
  then have "n2 = 0" by (simp only: trunc_half)
  with s2 have "score r2 = 1" by simp
  with p2 have r2: "\<exists>r. parse_model_json (reply_env raw_half (JObject [(''score'', ?v2)]))
      raw_half = Inr r \<and> score r = 1"
    by (intro exI conjI)
  have r4: "\<exists>r. parse_model_json (reply_env raw_twelve (JObject [(''score'', ?v4)]))
      raw_twelve = Inr r \<and> score r = 5"
    using t4 by simp
  have r5: "\<exists>r. parse_model_json (reply_env raw_minus (JObject [(''score'', ?v5)]))
      raw_minus = Inr r \<and> score r = 1"
    using t5 by simp
  have r6: "\<exists>r. parse_model_json (reply_env raw_four (JObject [(''score'', ?v6)]))
      raw_four = Inr r \<and> score r = 4"
    using t6 by simp
  from r1 r2 t3 r4 r5 r6 t7 show ?thesis by (intro conjI)
qed


end
